theory Spec2Isabelle
  imports Main "HOL-Library.Multiset" "HOL-Library.Char_ord" "HOL-Library.List_Lexorder"
    "HOL-Library.Product_Lexorder" "HOL-Library.Monad_Syntax"
begin

unbundle bit_operations_syntax

section \<open>The mDNS engine of rtpmidid (src/mdns/mdns.cpp)\<close>

text \<open>
  A shallow embedding of \<^verbatim>\<open>src/mdns/mdns.cpp\<close>.  Integers of the source (bytes,
  \<^verbatim>\<open>uint16_t\<close>, \<^verbatim>\<open>uint32_t\<close>) are natural numbers; where the source truncates, the
  truncation is written out with \<open>mod\<close>.  A \<^verbatim>\<open>std::string\<close> is a \<open>string\<close> (a list of
  8-bit characters).  An exception of the source is a value of type \<open>exception\<close>; a stateful
  member function takes the engine and returns the exception raised, if any, together with
  the engine as the call leaves it.
\<close>

subsection \<open>Exceptions\<close>

text \<open>
  The source throws one class, \<^verbatim>\<open>rtpmidid::exception\<close>, with a message.  The model keeps
  the three origins apart: the length checks of \<^verbatim>\<open>announce\<close>, \<^verbatim>\<open>query\<close> and
  \<^verbatim>\<open>on_discovery\<close>; a read or write of a \<^verbatim>\<open>parse_buffer_t\<close> that would cross its end;
  and a step whose behaviour C++ leaves undefined (erasing at \<^verbatim>\<open>end()\<close>, calling through a
  null \<^verbatim>\<open>unique_ptr\<close>, a timer whose record is gone).
\<close>

datatype exception = NameTooLong | BufferFault | UndefinedBehaviour

subsection \<open>Wire codec (netutils.hpp, used by mdns.cpp)\<close>

type_synonym byte = nat

text \<open>
  Modelled from the spec: the writers of \<^verbatim>\<open>parse_buffer_t\<close> (netutils.hpp) are not part of
  the sources at hand.  "Primitives: read_u8, read_u16 (big-endian), read_u32, and symmetric
  writers."  A writer is the list of bytes that it appends.
\<close>

definition write_uint8 :: "nat \<Rightarrow> byte list" where
  "write_uint8 v = [v mod 256]"

definition write_uint16 :: "nat \<Rightarrow> byte list" where
  "write_uint16 v = [(v div 256) mod 256, v mod 256]"

definition write_uint32 :: "nat \<Rightarrow> byte list" where
  "write_uint32 v =
     [(v div 16777216) mod 256, (v div 65536) mod 256, (v div 256) mod 256, v mod 256]"

text \<open>
  Modelled from the spec: \<^verbatim>\<open>write_label\<close> of netutils is not part of the sources at hand.
  "Emit each dot-separated segment as length byte + bytes, terminate with zero."
\<close>

fun split_dots :: "string \<Rightarrow> string list" where
  "split_dots [] = [[]]"
| "split_dots (c # cs) =
     (if c = CHR ''.'' then [] # split_dots cs
      else (case split_dots cs of [] \<Rightarrow> [[c]] | seg # segs \<Rightarrow> (c # seg) # segs))"

definition write_segment :: "string \<Rightarrow> byte list" where
  "write_segment seg = write_uint8 (length seg) @ map of_char seg"

definition write_label :: "string \<Rightarrow> byte list" where
  "write_label name = concat (map write_segment (split_dots name)) @ [0]"

text \<open>
  Modelled from the spec: the readers of \<^verbatim>\<open>parse_buffer_t\<close> (netutils.hpp) are not part of
  the sources at hand.  "Every read/write advances position; an operation that would cross
  end raises a parse fault."  The buffer is the list of bytes between \<^verbatim>\<open>start\<close> and
  \<^verbatim>\<open>end\<close>; \<^verbatim>\<open>position\<close> is an index into it.  A reader returns \<open>None\<close> for the fault.
\<close>

definition read_uint8 :: "byte list \<Rightarrow> nat \<Rightarrow> (nat \<times> nat) option" where
  "read_uint8 buf pos =
     (if pos + 1 > length buf then None else Some (buf ! pos, pos + 1))"

definition read_uint16 :: "byte list \<Rightarrow> nat \<Rightarrow> (nat \<times> nat) option" where
  "read_uint16 buf pos =
     (if pos + 2 > length buf then None
      else Some (256 * (buf ! pos) + buf ! (pos + 1), pos + 2))"

definition read_uint32 :: "byte list \<Rightarrow> nat \<Rightarrow> (nat \<times> nat) option" where
  "read_uint32 buf pos =
     (if pos + 4 > length buf then None
      else Some (16777216 * (buf ! pos) + 65536 * (buf ! (pos + 1))
                 + 256 * (buf ! (pos + 2)) + buf ! (pos + 3), pos + 4))"

definition assert_valid_position :: "byte list \<Rightarrow> nat \<Rightarrow> bool" where
  "assert_valid_position buf pos = (pos \<le> length buf)"

text \<open>
  Modelled from the spec: \<^verbatim>\<open>read_label\<close> of netutils is not part of the sources at hand.
  "A sequence of length-prefixed segments; a leading byte with the top two bits set (0xC0)
  introduces a 14-bit compression pointer whose offset is relative to packet start; the
  codec recursively resolves pointers into the output buffer (guard against cycles: limit
  pointer hops).  Terminating zero byte ends the name.  Output form is dot-joined."
  The first argument bounds the number of segments and pointer hops followed; the reader
  is left behind the terminating zero, or behind the two bytes of a pointer.
\<close>

fun read_segments :: "nat \<Rightarrow> byte list \<Rightarrow> nat \<Rightarrow> (string list \<times> nat) option" where
  "read_segments 0 buf pos = None"
| "read_segments (Suc hops) buf pos =
     (if pos \<ge> length buf then None
      else let b = buf ! pos in
        if b = 0 then Some ([], pos + 1)
        else if b AND 192 = 192 then
          (if pos + 2 > length buf then None
           else (case read_segments hops buf (256 * (b AND 63) + buf ! (pos + 1)) of
                   None \<Rightarrow> None
                 | Some (segs, _) \<Rightarrow> Some (segs, pos + 2)))
        else if pos + 1 + b > length buf then None
        else (case read_segments hops buf (pos + 1 + b) of
                None \<Rightarrow> None
              | Some (segs, p) \<Rightarrow> Some (map char_of (take b (drop (pos + 1) buf)) # segs, p)))"

fun join_dots :: "string list \<Rightarrow> string" where
  "join_dots [] = []"
| "join_dots [seg] = seg"
| "join_dots (seg # segs) = seg @ CHR ''.'' # join_dots segs"

text \<open>
  The callers of \<^verbatim>\<open>read_label\<close> decode into a 128-byte array (\<^verbatim>\<open>uint8_t label[128]\<close>)
  that they then read as a C string: a name that does not fit with its terminator is a fault.
\<close>

definition read_label :: "byte list \<Rightarrow> nat \<Rightarrow> (string \<times> nat) option" where
  "read_label buf pos =
     (case read_segments (Suc (length buf)) buf pos of
        None \<Rightarrow> None
      | Some (segs, p) \<Rightarrow>
          (if length (join_dots segs) + 1 > 128 then None else Some (join_dots segs, p)))"

subsection \<open>Record model (mdns.hpp)\<close>

type_synonym query_type_e = nat

definition A :: query_type_e where "A = 1"
definition PTR :: query_type_e where "PTR = 12"
definition TXT :: query_type_e where "TXT = 16"
definition SRV :: query_type_e where "SRV = 33"

text \<open>
  Modelled from the spec: the classes \<^verbatim>\<open>service\<close>, \<^verbatim>\<open>service_a\<close>, \<^verbatim>\<open>service_ptr\<close>,
  \<^verbatim>\<open>service_srv\<close> and \<^verbatim>\<open>service_txt\<close> are declared in mdns.hpp, which is not part of the
  sources at hand.  "Common fields: label, type, ttl.  Variant A: 4-byte IPv4 address;
  variant PTR: servicename; variant SRV: hostname, port; variant TXT: a single txt string."
  The type of a record is the type of its variant.  The address of an A record is the
  number whose big-endian bytes are \<^verbatim>\<open>ip[0..3]\<close>, so it is zero exactly when \<^verbatim>\<open>ip4 == 0\<close>.
\<close>

datatype payload =
    service_a nat
  | service_ptr string
  | service_srv string nat
  | service_txt string

record service =
  label :: string
  ttl :: nat
  payload :: payload

definition type :: "service \<Rightarrow> query_type_e" where
  "type s = (case payload s of
               service_a _ \<Rightarrow> A
             | service_ptr _ \<Rightarrow> PTR
             | service_srv _ _ \<Rightarrow> SRV
             | service_txt _ \<Rightarrow> TXT)"

text \<open>
  Modelled from the spec: \<^verbatim>\<open>service::equal\<close> and \<^verbatim>\<open>service::clone\<close> are defined with the
  classes.  "Two records are equal iff type, label, and variant-specific payload are all
  equal"; "clone: owned record of same variant and payload".
\<close>

definition equal :: "service \<Rightarrow> service \<Rightarrow> bool" where
  "equal a b = (type a = type b \<and> label a = label b \<and> payload a = payload b)"

definition clone :: "service \<Rightarrow> service" where
  "clone s = \<lparr>label = label s, ttl = ttl s, payload = payload s\<rparr>"

subsection \<open>Discovery matcher\<close>

text \<open>
  Modelled from the spec: \<^verbatim>\<open>startswith\<close> and \<^verbatim>\<open>endswith\<close> come from stringpp.hpp, which is
  not part of the sources at hand; they are the prefix and the suffix test.
\<close>

definition startswith :: "string \<Rightarrow> string \<Rightarrow> bool" where
  "startswith str start = (take (length start) str = start)"

definition endswith :: "string \<Rightarrow> string \<Rightarrow> bool" where
  "endswith str ending =
     (length ending \<le> length str \<and> drop (length str - length ending) str = ending)"

definition discovery_match :: "string \<Rightarrow> string \<Rightarrow> bool" where
  "discovery_match expr label' =
     (if startswith expr ''*.'' then endswith label' (drop 2 expr) else expr = label')"


subsection \<open>Containers\<close>

text \<open>
  The registries are \<^verbatim>\<open>std::map\<close>s from \<^verbatim>\<open>std::pair<query_type_e, std::string>\<close> to a
  \<^verbatim>\<open>std::vector\<close>.  A map is the list of its entries in key order, which is the order
  in which the source iterates over it.  \<open>find_key\<close> is \<^verbatim>\<open>find\<close>; \<open>at_key\<close> is the vector
  that \<^verbatim>\<open>operator[]\<close> gives (empty for a new key); \<open>set_key\<close> stores a vector under a key,
  inserting the key in order when it is new; \<open>touch_key\<close> is the insertion that
  \<^verbatim>\<open>operator[]\<close> alone performs; \<open>erase_key\<close> is \<^verbatim>\<open>erase\<close>.
\<close>

type_synonym key = "query_type_e \<times> string"
type_synonym 'v table = "(key \<times> 'v list) list"

definition find_key :: "key \<Rightarrow> 'v table \<Rightarrow> 'v list option" where
  "find_key k m = map_of m k"

definition at_key :: "key \<Rightarrow> 'v table \<Rightarrow> 'v list" where
  "at_key k m = (case map_of m k of None \<Rightarrow> [] | Some v \<Rightarrow> v)"

fun set_key :: "key \<Rightarrow> 'v list \<Rightarrow> 'v table \<Rightarrow> 'v table" where
  "set_key k v [] = [(k, v)]"
| "set_key k v ((k', v') # m) =
     (if k = k' then (k, v) # m
      else if k < k' then (k, v) # (k', v') # m
      else (k', v') # set_key k v m)"

definition touch_key :: "key \<Rightarrow> 'v table \<Rightarrow> 'v table" where
  "touch_key k m = set_key k (at_key k m) m"

definition erase_key :: "key \<Rightarrow> 'v table \<Rightarrow> 'v table" where
  "erase_key k m = filter (\<lambda>kv. fst kv \<noteq> k) m"

subsection \<open>Engine state\<close>

text \<open>
  A callback (\<^verbatim>\<open>std::function<void(const service *)>\<close>) is opaque to the engine: it is a
  number, and calling it with a record appends the pair to the log \<open>called\<close>.  A callback
  does not call back into the engine.  \<open>sent\<close> is the log of the datagrams handed to
  \<^verbatim>\<open>sendto\<close>, oldest first; a datagram is the bytes written into the packet buffer (the
  byte count passed to \<^verbatim>\<open>sendto\<close> is \<^verbatim>\<open>buffer->capacity()\<close> of netutils.hpp).

  An announced record owns a timer handle, \<^verbatim>\<open>cache_timeout_id\<close>; only announced records
  ever get one assigned, so the handle is a field of the registry entry (\<open>None\<close> for a
  handle without a timer).  \<open>timers\<close> and \<open>next_timer_id\<close> are the state of the poller:
  the pending timers, each with its id and its delay in seconds, and the next id to give.

  \<open>routes\<close> is the file-level \<^verbatim>\<open>static std::vector<ip_route4_t> routes\<close>.  An address
  (\<^verbatim>\<open>ip4_t\<close>) is the number whose big-endian bytes are the address in network order.
\<close>

type_synonym callback = nat

record entry =
  svc :: service
  cache_timeout_id :: "nat option"

record ip_route4_t =
  ip :: nat
  mask :: nat

record mdns =
  ip4 :: nat
  routes :: "ip_route4_t list"
  announcements :: "entry table"
  discovery_map :: "callback table"
  query_map :: "callback table"
  cache :: "service option table"
  timers :: "(nat \<times> nat) list"
  next_timer_id :: nat
  sent :: "byte list list"
  called :: "(callback \<times> service) list"

subsection \<open>Route resolver\<close>

definition match :: "ip_route4_t \<Rightarrow> nat \<Rightarrow> bool" where
  "match route other = (other AND mask route = ip route AND mask route)"

fun route_get_ip_for_route :: "ip_route4_t list \<Rightarrow> nat \<Rightarrow> nat" where
  "route_get_ip_for_route [] in_other = 0"
| "route_get_ip_for_route (route # rs) in_other =
     (if match route in_other then ip route else route_get_ip_for_route rs in_other)"

text \<open>
  One \<^verbatim>\<open>struct ifaddrs\<close> of the list that \<^verbatim>\<open>getifaddrs\<close> returns: whether the family is
  \<^verbatim>\<open>AF_INET\<close>, the address, the netmask, and the flag \<^verbatim>\<open>IFF_LOOPBACK\<close>.
\<close>

record ifaddr =
  ifa_inet :: bool
  ifa_addr :: nat
  ifa_netmask :: nat
  ifa_loopback :: bool

fun guess_default_ip :: "ifaddr list \<Rightarrow> ip_route4_t list \<Rightarrow> nat \<Rightarrow> nat \<times> ip_route4_t list" where
  "guess_default_ip [] rts route_default_ip = (route_default_ip, rts)"
| "guess_default_ip (next # addrs) rts route_default_ip =
     (if ifa_inet next then
        guess_default_ip addrs (rts @ [\<lparr>ip = ifa_addr next, mask = ifa_netmask next\<rparr>])
          (if route_default_ip = 0 \<and> \<not> ifa_loopback next then ifa_addr next
           else route_default_ip)
      else guess_default_ip addrs rts route_default_ip)"

text \<open>
  The constructor, for a socket that opens and binds: \<open>default_ip\<close> is what \<^verbatim>\<open>inet_addr\<close>
  made of the argument.  \<open>static_routes\<close> is the file-level vector \<^verbatim>\<open>routes\<close> as the
  constructor finds it: empty in a process that has not constructed an engine before, and
  otherwise what the earlier constructors have appended, since nothing clears it.
\<close>

definition mdns_new :: "nat \<Rightarrow> ifaddr list \<Rightarrow> ip_route4_t list \<Rightarrow> mdns" where
  "mdns_new default_ip addrs static_routes =
     (let (ip', rts) = (if default_ip = 0 then guess_default_ip addrs static_routes 0
                        else (default_ip, static_routes))
      in \<lparr>ip4 = ip', routes = rts, announcements = [], discovery_map = [], query_map = [],
          cache = [], timers = [], next_timer_id = 0, sent = [], called = []\<rparr>)"

subsection \<open>Sending\<close>

definition broadcast :: "byte list \<Rightarrow> mdns \<Rightarrow> mdns" where
  "broadcast packet s = s\<lparr>sent := sent s @ [packet]\<rparr>"

text \<open>
  The first twelve bytes of a response: zeros, \<^verbatim>\<open>0x84\<close> at offset 2, and the answer count 1
  at offset 6.
\<close>

definition response_header :: "byte list" where
  "response_header = [0, 0, 132, 0, 0, 0] @ write_uint16 1 @ [0, 0, 0, 0]"

text \<open>
  The \<^verbatim>\<open>TXT\<close> case reads \<^verbatim>\<open>txt\<close> through a \<^verbatim>\<open>static_cast\<close> to \<^verbatim>\<open>service_txt\<close>.  The
  \<^verbatim>\<open>SRV\<close> case has no \<^verbatim>\<open>break\<close> and runs into it with an SRV record, whose first string
  member is \<^verbatim>\<open>hostname\<close>: that is what the cast reads there.
\<close>

definition txt_member :: "payload \<Rightarrow> string" where
  "txt_member p = (case p of
                     service_txt t \<Rightarrow> t
                   | service_srv h _ \<Rightarrow> h
                   | service_ptr n \<Rightarrow> n
                   | service_a _ \<Rightarrow> [])"

definition txt_case :: "service \<Rightarrow> byte list" where
  "txt_case s = write_label (txt_member (payload s))"

definition rdata :: "nat \<Rightarrow> service \<Rightarrow> byte list" where
  "rdata my_ip4 s =
     (case payload s of
        service_a a \<Rightarrow> (if a = 0 then write_uint32 my_ip4 else write_uint32 a)
      | service_ptr servicename \<Rightarrow> write_label servicename
      | service_srv hostname port \<Rightarrow>
          write_uint16 0 @ write_uint16 0 @ write_uint16 port @ write_label hostname
          @ txt_case s
      | service_txt _ \<Rightarrow> txt_case s)"

definition response_packet :: "nat \<Rightarrow> service \<Rightarrow> byte list" where
  "response_packet my_ip4 s =
     response_header @ write_label (label s) @ write_uint16 (type s) @ write_uint16 1
     @ write_uint32 (ttl s) @ write_uint16 (length (rdata my_ip4 s)) @ rdata my_ip4 s"

text \<open>
  The packet buffer has 1500 bytes.  Every write of \<^verbatim>\<open>parse_buffer_t\<close> is checked against
  the end of the buffer (modelled from the spec, as the readers above), so the call throws
  exactly when the packet does not fit; nothing has been sent then.  The \<^verbatim>\<open>default\<close> case of
  the \<^verbatim>\<open>switch\<close> is for a record type other than the four of the record model.
\<close>

definition send_response :: "service \<Rightarrow> mdns \<Rightarrow> exception option \<times> mdns" where
  "send_response s m =
     (let packet = response_packet (ip4 m) s
      in if length packet > 1500 then (Some BufferFault, m) else (None, broadcast packet m))"

fun send_all :: "entry list \<Rightarrow> mdns \<Rightarrow> exception option \<times> mdns" where
  "send_all [] m = (None, m)"
| "send_all (response # rs) m =
     (case send_response (svc response) m of
        (Some x, m') \<Rightarrow> (Some x, m')
      | (None, m') \<Rightarrow> send_all rs m')"

definition answer_if_known :: "query_type_e \<Rightarrow> string \<Rightarrow> mdns \<Rightarrow> (exception + bool) \<times> mdns" where
  "answer_if_known type' label' m =
     (case find_key (type', label') (announcements m) of
        None \<Rightarrow> (Inr False, m)
      | Some found \<Rightarrow>
          (case send_all found m of
             (Some x, m') \<Rightarrow> (Inl x, m')
           | (None, m') \<Rightarrow> (Inr True, m')))"


subsection \<open>Cache\<close>

text \<open>
  A cache bucket is a \<^verbatim>\<open>std::vector<std::unique_ptr<service>>\<close>; a slot is \<open>None\<close> when
  the pointer is null, which is what a \<^verbatim>\<open>unique_ptr\<close> is after it was moved from.

  \<^verbatim>\<open>std::remove_if\<close>, as the standard library implements it: find the first element that
  satisfies the predicate, then move every later element that does not satisfy it down to
  the write position.  It returns the vector and the index of the new logical end.  Calling
  the predicate of the source on a null slot dereferences it.
\<close>

fun find_if :: "('a \<Rightarrow> bool) \<Rightarrow> 'a option list \<Rightarrow> nat option" where
  "find_if p [] = Some 0"
| "find_if p (None # xs) = None"
| "find_if p (Some d # xs) = (if p d then Some 0 else map_option Suc (find_if p xs))"

fun remove_if_moves ::
  "('a \<Rightarrow> bool) \<Rightarrow> nat list \<Rightarrow> 'a option list \<Rightarrow> nat \<Rightarrow> ('a option list \<times> nat) option" where
  "remove_if_moves p [] xs w = Some (xs, w)"
| "remove_if_moves p (i # is) xs w =
     (case xs ! i of
        None \<Rightarrow> None
      | Some d \<Rightarrow>
          (if p d then remove_if_moves p is xs w
           else remove_if_moves p is (xs[w := Some d, i := None]) (Suc w)))"

definition remove_if :: "('a \<Rightarrow> bool) \<Rightarrow> 'a option list \<Rightarrow> ('a option list \<times> nat) option" where
  "remove_if p xs =
     (case find_if p xs of
        None \<Rightarrow> None
      | Some first \<Rightarrow>
          (if first \<ge> length xs then Some (xs, length xs)
           else remove_if_moves p [Suc first ..< length xs] xs first))"

text \<open>
  \<^verbatim>\<open>services.erase(it)\<close> with one iterator erases the one element at \<open>it\<close>; at \<^verbatim>\<open>end()\<close>
  its behaviour is undefined.
\<close>

definition erase_at :: "nat \<Rightarrow> 'a list \<Rightarrow> 'a list option" where
  "erase_at pos xs = (if pos \<ge> length xs then None else Some (take pos xs @ drop (Suc pos) xs))"

definition refresh :: "service \<Rightarrow> service option \<Rightarrow> service option" where
  "refresh service d =
     (case d of
        None \<Rightarrow> None
      | Some x \<Rightarrow> if equal x service then Some (x\<lparr>ttl := ttl service\<rparr>) else Some x)"

definition at_cache :: "service \<Rightarrow> service option \<Rightarrow> bool" where
  "at_cache service d = (case d of None \<Rightarrow> False | Some x \<Rightarrow> equal x service)"

definition update_cache :: "service \<Rightarrow> mdns \<Rightarrow> exception option \<times> mdns" where
  "update_cache service m =
     (let type_label = (type service, label service);
          services = at_key type_label (cache m)
      in if ttl service = 0 then
           (if length services = 0 then (None, m\<lparr>cache := touch_key type_label (cache m)\<rparr>)
            else (case remove_if (\<lambda>d. equal d service) services of
                    None \<Rightarrow> (Some UndefinedBehaviour, m)
                  | Some (moved, it) \<Rightarrow>
                      (case erase_at it moved of
                         None \<Rightarrow> (Some UndefinedBehaviour, m)
                       | Some erased \<Rightarrow>
                           (None, m\<lparr>cache := set_key type_label erased (cache m)\<rparr>))))
         else if list_ex (\<lambda>d. d = None) services then (Some UndefinedBehaviour, m)
         else if list_ex (at_cache service) services then
           (None, m\<lparr>cache := set_key type_label (map (refresh service) services) (cache m)\<rparr>)
         else
           (None, m\<lparr>cache := set_key type_label (services @ [Some (clone service)]) (cache m)\<rparr>))"

subsection \<open>Detection\<close>

text \<open>
  The first loop of \<^verbatim>\<open>detected_service\<close>: is the record one of my own announcements?
\<close>

definition own_record :: "mdns \<Rightarrow> service \<Rightarrow> bool" where
  "own_record m service =
     list_ex (\<lambda>d. fst (fst d) = type service \<and> list_ex (\<lambda>s. equal (svc s) service) (snd d))
       (announcements m)"

definition tocall :: "mdns \<Rightarrow> service \<Rightarrow> callback list" where
  "tocall m service =
     concat (map snd
       (filter (\<lambda>discovery. type service = fst (fst discovery)
                  \<and> discovery_match (snd (fst discovery)) (label service))
          (discovery_map m)))"

definition call_all :: "callback list \<Rightarrow> service \<Rightarrow> mdns \<Rightarrow> mdns" where
  "call_all fs service m = m\<lparr>called := called m @ map (\<lambda>f. (f, service)) fs\<rparr>"

definition detected_service :: "service \<Rightarrow> mdns \<Rightarrow> exception option \<times> mdns" where
  "detected_service service m =
     (let type_label = (type service, label service)
      in if own_record m service then (None, m)
         else
           (let m1 = call_all (tocall m service) service m;
                m2 = call_all (at_key type_label (query_map m1)) service m1;
                m3 = m2\<lparr>query_map := erase_key type_label (query_map m2)\<rparr>
            in update_cache service m3))"

subsection \<open>Queries\<close>

definition query_header :: "byte list" where
  "query_header = [0, 0, 0, 0, 0, 1, 0, 0, 0, 0, 0, 0]"

definition query_packet :: "string \<Rightarrow> query_type_e \<Rightarrow> byte list" where
  "query_packet name type' = query_header @ write_label name @ write_uint16 type' @ write_uint16 1"

text \<open>
  The loop of \<^verbatim>\<open>query\<close> over the cached records of the bucket: the indices still to
  visit.  Each step reads the slot from the bucket as it is then.  A step that changes the
  size of the vector invalidates the iterators of the loop.
\<close>

fun deliver_cached :: "key \<Rightarrow> nat list \<Rightarrow> mdns \<Rightarrow> exception option \<times> mdns" where
  "deliver_cached k [] m = (None, m)"
| "deliver_cached k (i # is) m =
     (let bucket = at_key k (cache m)
      in if i \<ge> length bucket then (Some UndefinedBehaviour, m)
         else (case bucket ! i of
                 None \<Rightarrow> (Some UndefinedBehaviour, m)
               | Some service \<Rightarrow>
                   (case detected_service service m of
                      (Some x, m') \<Rightarrow> (Some x, m')
                    | (None, m') \<Rightarrow>
                        (if length (at_key k (cache m')) \<noteq> length bucket
                         then (Some UndefinedBehaviour, m')
                         else deliver_cached k is m'))))"

text \<open>The overload \<^verbatim>\<open>query(name, type)\<close>.  Its packet buffer has 120 bytes.\<close>

definition query_name :: "string \<Rightarrow> query_type_e \<Rightarrow> mdns \<Rightarrow> exception option \<times> mdns" where
  "query_name name type' m =
     (case find_key (type', name) (cache m) of
        Some bucket \<Rightarrow> deliver_cached (type', name) [0 ..< length bucket] m
      | None \<Rightarrow>
          (if length (query_packet name type') > 120 then (Some BufferFault, m)
           else (None, broadcast (query_packet name type') m)))"

text \<open>The overload \<^verbatim>\<open>query(service, qt, f)\<close>.\<close>

definition query :: "string \<Rightarrow> query_type_e \<Rightarrow> callback \<Rightarrow> mdns \<Rightarrow> exception option \<times> mdns" where
  "query service qt f m =
     (if length service > 100 then (Some NameTooLong, m)
      else query_name service qt
             (m\<lparr>query_map := set_key (qt, service) (at_key (qt, service) (query_map m) @ [f])
                               (query_map m)\<rparr>))"

subsection \<open>Discovery subscriptions\<close>

definition on_discovery :: "string \<Rightarrow> query_type_e \<Rightarrow> callback \<Rightarrow> mdns \<Rightarrow> exception option \<times> mdns" where
  "on_discovery service qt f m =
     (if length service > 100 then (Some NameTooLong, m)
      else (None, m\<lparr>discovery_map :=
                      set_key (qt, service) (at_key (qt, service) (discovery_map m) @ [f])
                        (discovery_map m)\<rparr>))"

definition remove_discovery :: "string \<Rightarrow> query_type_e \<Rightarrow> mdns \<Rightarrow> mdns" where
  "remove_discovery service type' m =
     m\<lparr>discovery_map := erase_key (type', service) (discovery_map m)\<rparr>"

subsection \<open>Announcements\<close>

text \<open>
  Modelled from the spec: the poller (poller.hpp) and its \<^verbatim>\<open>add_timer_event\<close> are not part
  of the sources at hand.  "schedule(delay, callback) gives a timer handle: one-shot; handle
  destruction cancels the pending invocation."  The callback given in \<^verbatim>\<open>reannounce_later\<close>
  is a closure over \<^verbatim>\<open>srv\<close>: the callback of the pending timer \<open>id\<close> belongs to the record
  that holds the handle \<open>id\<close>.
\<close>

definition add_timer_event :: "nat \<Rightarrow> mdns \<Rightarrow> nat \<times> mdns" where
  "add_timer_event seconds m =
     (next_timer_id m,
      m\<lparr>timers := timers m @ [(next_timer_id m, seconds)], next_timer_id := Suc (next_timer_id m)\<rparr>)"

definition reannounce_later :: "entry \<Rightarrow> mdns \<Rightarrow> entry \<times> mdns" where
  "reannounce_later srv m =
     (let (timer_id, m') = add_timer_event (ttl (svc srv)) m
      in (srv\<lparr>cache_timeout_id := Some timer_id\<rparr>, m'))"

definition announce :: "service \<Rightarrow> bool \<Rightarrow> mdns \<Rightarrow> exception option \<times> mdns" where
  "announce service broadcast' m =
     (if length (label service) > 100 then (Some NameTooLong, m)
      else
        (let idx = (type service, label service)
         in (case (if broadcast' then send_response service m else (None, m)) of
               (Some x, m1) \<Rightarrow> (Some x, m1)
             | (None, m1) \<Rightarrow>
                 (let (srv, m2) =
                        (if broadcast' \<and> ttl service > 0
                         then reannounce_later \<lparr>svc = service, cache_timeout_id = None\<rparr> m1
                         else (\<lparr>svc = service, cache_timeout_id = None\<rparr>, m1))
                  in (None, m2\<lparr>announcements :=
                                 set_key idx (at_key idx (announcements m2) @ [srv])
                                   (announcements m2)\<rparr>)))))"

text \<open>
  Modelled from the spec: destroying a timer handle (poller.hpp) cancels its pending timer.
  \<open>cancel_timers\<close> is what the destruction of registry entries does to the pending timers.
\<close>

definition cancel_timers :: "entry list \<Rightarrow> (nat \<times> nat) list \<Rightarrow> (nat \<times> nat) list" where
  "cancel_timers destroyed ts =
     filter (\<lambda>t. \<not> list_ex (\<lambda>x. cache_timeout_id x = Some (fst t)) destroyed) ts"

text \<open>
  \<^verbatim>\<open>unannounce\<close> gets a pointer to a record of the caller, not to one the registry owns.
  \<^verbatim>\<open>reannounce_timers\<close> is a member that nothing fills, so its \<^verbatim>\<open>erase\<close> does nothing.
  The erased registry entries are destroyed, and their timer handles with them.
\<close>

definition unannounce :: "service \<Rightarrow> mdns \<Rightarrow> exception option \<times> mdns" where
  "unannounce srv0 m =
     (let srv = srv0\<lparr>ttl := 0\<rparr>
      in (case send_response srv m of
            (Some x, m1) \<Rightarrow> (Some x, m1)
          | (None, m1) \<Rightarrow>
              (let idx = (type srv, label srv);
                   annv = at_key idx (announcements m1)
               in (None, m1\<lparr>announcements :=
                              set_key idx (filter (\<lambda>x. \<not> equal (svc x) srv) annv)
                                (announcements m1),
                            timers :=
                              cancel_timers (filter (\<lambda>x. equal (svc x) srv) annv)
                                (timers m1)\<rparr>))))"

text \<open>
  Modelled from the spec: the poller fires the pending timer \<open>timer_id\<close>.  The timer is
  one-shot, so it is no longer pending when its callback runs.  The callback is the closure
  of \<^verbatim>\<open>reannounce_later\<close> whose \<^verbatim>\<open>srv\<close> is the announced record that holds the handle:
  it sends the response and calls \<^verbatim>\<open>reannounce_later(srv)\<close>, whose assignment to
  \<^verbatim>\<open>srv->cache_timeout_id\<close> is \<open>rearm\<close> on the registry.  A timer whose record is gone
  would call through a dangling pointer.
\<close>

definition all_entries :: "mdns \<Rightarrow> entry list" where
  "all_entries m = concat (map snd (announcements m))"

definition rearm :: "nat \<Rightarrow> nat \<Rightarrow> entry \<Rightarrow> entry" where
  "rearm old new x = (if cache_timeout_id x = Some old then x\<lparr>cache_timeout_id := Some new\<rparr> else x)"

definition timer_fired :: "nat \<Rightarrow> mdns \<Rightarrow> exception option \<times> mdns" where
  "timer_fired timer_id m =
     (if \<not> list_ex (\<lambda>t. fst t = timer_id) (timers m) then (None, m)
      else
        (let m0 = m\<lparr>timers := filter (\<lambda>t. fst t \<noteq> timer_id) (timers m)\<rparr>
         in (case find (\<lambda>x. cache_timeout_id x = Some timer_id) (all_entries m0) of
               None \<Rightarrow> (Some UndefinedBehaviour, m0)
             | Some srv \<Rightarrow>
                 (case send_response (svc srv) m0 of
                    (Some x, m1) \<Rightarrow> (Some x, m1)
                  | (None, m1) \<Rightarrow>
                      (let (srv', m2) = reannounce_later srv m1
                       in (None, m2\<lparr>announcements :=
                                      map (\<lambda>d. (fst d, map (rearm timer_id (next_timer_id m1)) (snd d)))
                                        (announcements m2)\<rparr>))))))"

subsection \<open>Inbound packets\<close>

text \<open>
  The decoded label is handed on as \<^verbatim>\<open>(char *)label\<close>: the string ends at the first zero
  character.
\<close>

definition c_str :: "string \<Rightarrow> string" where
  "c_str bytes = takeWhile (\<lambda>c. c \<noteq> CHR 0x00) bytes"

definition question_fields :: "byte list \<Rightarrow> nat \<Rightarrow> (string \<times> nat \<times> nat) option" where
  "question_fields buf position =
     do {
       (label', p1) \<leftarrow> read_label buf position;
       (type', p2) \<leftarrow> read_uint16 buf p1;
       (class', p3) \<leftarrow> read_uint16 buf p2;
       Some (c_str label', type', p3)
     }"

definition read_question :: "byte list \<Rightarrow> nat \<Rightarrow> mdns \<Rightarrow> (exception + bool \<times> nat) \<times> mdns" where
  "read_question buf position m =
     (case question_fields buf position of
        None \<Rightarrow> (Inl BufferFault, m)
      | Some (label', type', pos) \<Rightarrow>
          (case answer_if_known type' label' m of
             (Inl x, m') \<Rightarrow> (Inl x, m')
           | (Inr known, m') \<Rightarrow> (Inr (known, pos), m')))"

definition answer_fields :: "byte list \<Rightarrow> nat \<Rightarrow> (string \<times> nat \<times> nat \<times> nat \<times> nat) option" where
  "answer_fields buf position =
     do {
       (label', p1) \<leftarrow> read_label buf position;
       (type', p2) \<leftarrow> read_uint16 buf p1;
       (class', p3) \<leftarrow> read_uint16 buf p2;
       (ttl', p4) \<leftarrow> read_uint32 buf p3;
       (data_length, p5) \<leftarrow> read_uint16 buf p4;
       Some (c_str label', type', ttl', data_length, p5)
     }"

text \<open>
  The three branches of \<^verbatim>\<open>read_answer\<close> that build a record from the data at \<open>pos\<close>;
  the outer \<open>None\<close> is the fault, \<open>Some None\<close> a record type without a branch.
\<close>

definition answer_service ::
  "byte list \<Rightarrow> string \<Rightarrow> nat \<Rightarrow> nat \<Rightarrow> nat \<Rightarrow> service option option" where
  "answer_service buf label' type' ttl' pos =
     (if type' = PTR then
        do {
          (answer, p) \<leftarrow> read_label buf pos;
          Some (Some \<lparr>label = label', ttl = ttl', payload = service_ptr (c_str answer)\<rparr>)
        }
      else if type' = SRV then
        (if \<not> assert_valid_position buf (pos + 2 + 2) then None
         else do {
           (port, p1) \<leftarrow> read_uint16 buf (pos + 2 + 2);
           (target, p2) \<leftarrow> read_label buf p1;
           Some (Some \<lparr>label = label', ttl = ttl', payload = service_srv (c_str target) port\<rparr>)
         })
      else if type' = A then
        do {
          (ip0, p1) \<leftarrow> read_uint8 buf pos;
          (ip1, p2) \<leftarrow> read_uint8 buf p1;
          (ip2, p3) \<leftarrow> read_uint8 buf p2;
          (ip3, p4) \<leftarrow> read_uint8 buf p3;
          Some (Some \<lparr>label = label', ttl = ttl',
                      payload = service_a (16777216 * ip0 + 65536 * ip1 + 256 * ip2 + ip3)\<rparr>)
        }
      else Some None)"

definition read_answer :: "byte list \<Rightarrow> nat \<Rightarrow> mdns \<Rightarrow> (exception + bool \<times> nat) \<times> mdns" where
  "read_answer buf position m =
     (case answer_fields buf position of
        None \<Rightarrow> (Inl BufferFault, m)
      | Some (label', type', ttl', data_length, pos) \<Rightarrow>
          (case answer_service buf label' type' ttl' pos of
             None \<Rightarrow> (Inl BufferFault, m)
           | Some service \<Rightarrow>
               (case (case service of None \<Rightarrow> (None, m) | Some sv \<Rightarrow> detected_service sv m) of
                  (Some x, m') \<Rightarrow> (Inl x, m')
                | (None, m') \<Rightarrow>
                    (if assert_valid_position buf (pos + data_length)
                     then (Inr (True, pos + data_length), m')
                     else (Inl BufferFault, m')))))"

text \<open>
  The two loops of \<^verbatim>\<open>parse_packet\<close>, by the number of rounds left.  The result is
  \<open>Inr (False, _)\<close> when a round was not ok and the function returned.
\<close>

fun read_questions :: "nat \<Rightarrow> byte list \<Rightarrow> nat \<Rightarrow> mdns \<Rightarrow> (exception + bool \<times> nat) \<times> mdns" where
  "read_questions 0 buf position m = (Inr (True, position), m)"
| "read_questions (Suc n) buf position m =
     (case read_question buf position m of
        (Inl x, m') \<Rightarrow> (Inl x, m')
      | (Inr (ok, pos), m') \<Rightarrow>
          (if \<not> ok then (Inr (False, pos), m') else read_questions n buf pos m'))"

fun read_answers :: "nat \<Rightarrow> byte list \<Rightarrow> nat \<Rightarrow> mdns \<Rightarrow> (exception + bool \<times> nat) \<times> mdns" where
  "read_answers 0 buf position m = (Inr (True, position), m)"
| "read_answers (Suc n) buf position m =
     (case read_answer buf position m of
        (Inl x, m') \<Rightarrow> (Inl x, m')
      | (Inr (ok, pos), m') \<Rightarrow>
          (if \<not> ok then (Inr (False, pos), m') else read_answers n buf pos m'))"

definition packet_header :: "byte list \<Rightarrow> (nat \<times> nat \<times> nat) option" where
  "packet_header buf =
     do {
       (tid, p1) \<leftarrow> read_uint16 buf 0;
       (flags, p2) \<leftarrow> read_uint16 buf p1;
       (nquestions, p3) \<leftarrow> read_uint16 buf p2;
       (nanswers, p4) \<leftarrow> read_uint16 buf p3;
       (nauthority, p5) \<leftarrow> read_uint16 buf p4;
       (nadditional, p6) \<leftarrow> read_uint16 buf p5;
       Some (nquestions, nanswers, p6)
     }"

definition parse_packet :: "byte list \<Rightarrow> mdns \<Rightarrow> exception option \<times> mdns" where
  "parse_packet buf m =
     (case packet_header buf of
        None \<Rightarrow> (Some BufferFault, m)
      | Some (nquestions, nanswers, pos) \<Rightarrow>
          (case read_questions nquestions buf pos m of
             (Inl x, m1) \<Rightarrow> (Some x, m1)
           | (Inr (ok, pos1), m1) \<Rightarrow>
               (if \<not> ok then (None, m1)
                else (case read_answers nanswers buf pos1 m1 of
                        (Inl x, m2) \<Rightarrow> (Some x, m2)
                      | (Inr _, m2) \<Rightarrow> (None, m2)))))"

text \<open>
  \<^verbatim>\<open>mdns_ready\<close> for a datagram that \<^verbatim>\<open>recvfrom\<close> received: \<open>sender\<close> is
  \<^verbatim>\<open>cliaddr.sin_addr\<close>, and at most 1500 bytes of the datagram are read.
\<close>

definition mdns_ready :: "nat \<Rightarrow> byte list \<Rightarrow> mdns \<Rightarrow> exception option \<times> mdns" where
  "mdns_ready sender datagram m =
     (let buffer = take 1500 datagram;
          read_length = length buffer;
          m' = m\<lparr>ip4 := route_get_ip_for_route (routes m) sender\<rparr>
      in if read_length < 16 then (None, m')
         else if read_length > 1500 then (None, m')
         else parse_packet buffer m')"


subsection \<open>Reachable engine states\<close>

text \<open>
  The engine as its collaborators and the poller drive it: every public operation, the
  firing of a pending timer and the arrival of a datagram.  A call that throws leaves the
  engine as it was at the throw.  Nothing is said about the engine after undefined
  behaviour.  The vector \<^verbatim>\<open>routes\<close> is shared by the engines of a process: the last rule
  is the constructor of another engine, which calls \<^verbatim>\<open>guess_default_ip\<close>.
\<close>

inductive reachable :: "mdns \<Rightarrow> bool" where
  new: "reachable (mdns_new default_ip addrs static_routes)"
| on_discovery:
    "reachable m \<Longrightarrow> on_discovery service qt f m = (x, m') \<Longrightarrow> reachable m'"
| remove_discovery:
    "reachable m \<Longrightarrow> reachable (remove_discovery service qt m)"
| query:
    "reachable m \<Longrightarrow> query service qt f m = (x, m') \<Longrightarrow> x \<noteq> Some UndefinedBehaviour
     \<Longrightarrow> reachable m'"
| query_name:
    "reachable m \<Longrightarrow> query_name service qt m = (x, m') \<Longrightarrow> x \<noteq> Some UndefinedBehaviour
     \<Longrightarrow> reachable m'"
| announce:
    "reachable m \<Longrightarrow> announce srv b m = (x, m') \<Longrightarrow> reachable m'"
| unannounce:
    "reachable m \<Longrightarrow> unannounce srv m = (x, m') \<Longrightarrow> reachable m'"
| timer:
    "reachable m \<Longrightarrow> timer_fired timer_id m = (x, m') \<Longrightarrow> x \<noteq> Some UndefinedBehaviour
     \<Longrightarrow> reachable m'"
| datagram:
    "reachable m \<Longrightarrow> mdns_ready sender bytes m = (x, m') \<Longrightarrow> x \<noteq> Some UndefinedBehaviour
     \<Longrightarrow> reachable m'"
| other_engine:
    "reachable m \<Longrightarrow> reachable (m\<lparr>routes := snd (guess_default_ip addrs (routes m) 0)\<rparr>)"

text \<open>The number of pending timers that belong to a registry entry.\<close>

definition scheduled :: "mdns \<Rightarrow> entry \<Rightarrow> nat" where
  "scheduled m x = length (filter (\<lambda>t. cache_timeout_id x = Some (fst t)) (timers m))"

subsection \<open>The sections of a packet, decoded\<close>

text \<open>
  What a packet holds, read without the engine: the questions as pairs of type and label,
  and the answers as the records that \<^verbatim>\<open>read_answer\<close> builds (\<open>None\<close> for an answer of
  another type than PTR, SRV and A).  \<open>answer_all\<close> and \<open>detect_all\<close> are the engine's
  reactions, one after the other, up to the first exception.
\<close>

fun decode_questions :: "nat \<Rightarrow> byte list \<Rightarrow> nat \<Rightarrow> (key list \<times> nat) option" where
  "decode_questions 0 buf pos = Some ([], pos)"
| "decode_questions (Suc n) buf pos =
     (case question_fields buf pos of
        None \<Rightarrow> None
      | Some (label', type', p) \<Rightarrow>
          (case decode_questions n buf p of
             None \<Rightarrow> None
           | Some (qs, p') \<Rightarrow> Some ((type', label') # qs, p')))"

definition decode_answer :: "byte list \<Rightarrow> nat \<Rightarrow> (service option \<times> nat) option" where
  "decode_answer buf position =
     (case answer_fields buf position of
        None \<Rightarrow> None
      | Some (label', type', ttl', data_length, pos) \<Rightarrow>
          (case answer_service buf label' type' ttl' pos of
             None \<Rightarrow> None
           | Some service \<Rightarrow>
               (if assert_valid_position buf (pos + data_length)
                then Some (service, pos + data_length) else None)))"

fun decode_answers :: "nat \<Rightarrow> byte list \<Rightarrow> nat \<Rightarrow> (service option list \<times> nat) option" where
  "decode_answers 0 buf pos = Some ([], pos)"
| "decode_answers (Suc n) buf pos =
     (case decode_answer buf pos of
        None \<Rightarrow> None
      | Some (a, p) \<Rightarrow>
          (case decode_answers n buf p of
             None \<Rightarrow> None
           | Some (as, p') \<Rightarrow> Some (a # as, p')))"

definition known :: "mdns \<Rightarrow> key \<Rightarrow> bool" where
  "known m q = (find_key q (announcements m) \<noteq> None)"

fun answer_all :: "key list \<Rightarrow> mdns \<Rightarrow> exception option \<times> mdns" where
  "answer_all [] m = (None, m)"
| "answer_all (q # qs) m =
     (case answer_if_known (fst q) (snd q) m of
        (Inl x, m') \<Rightarrow> (Some x, m')
      | (Inr _, m') \<Rightarrow> answer_all qs m')"

fun detect_all :: "service option list \<Rightarrow> mdns \<Rightarrow> exception option \<times> mdns" where
  "detect_all [] m = (None, m)"
| "detect_all (None # as) m = detect_all as m"
| "detect_all (Some a # as) m =
     (case detected_service a m of
        (Some x, m') \<Rightarrow> (Some x, m')
      | (None, m') \<Rightarrow> detect_all as m')"

definition and_then ::
  "(mdns \<Rightarrow> exception option \<times> mdns) \<Rightarrow> (mdns \<Rightarrow> exception option \<times> mdns)
   \<Rightarrow> mdns \<Rightarrow> exception option \<times> mdns" where
  "and_then f g m = (case f m of (Some x, m') \<Rightarrow> (Some x, m') | (None, m') \<Rightarrow> g m')"

subsection \<open>What the packet path leaves alone\<close>

text \<open>
  Answering questions and detecting records change the sent packets, the callback log, the
  query callbacks and the cache, and nothing else.
\<close>

definition untouched :: "mdns \<Rightarrow> mdns \<Rightarrow> bool" where
  "untouched m m' =
     (ip4 m' = ip4 m \<and> routes m' = routes m \<and> announcements m' = announcements m
      \<and> discovery_map m' = discovery_map m \<and> timers m' = timers m
      \<and> next_timer_id m' = next_timer_id m)"

subsection \<open>Registry entries are filed under their own type and label\<close>

definition filed :: "mdns \<Rightarrow> bool" where
  "filed m =
     list_all (\<lambda>d. list_all (\<lambda>x. fst d = (type (svc x), label (svc x))) (snd d))
       (announcements m)"

subsection \<open>The shape of the cache\<close>

text \<open>
  The shape in which \<open>update_cache\<close> keeps the cache: the table is in key order; every
  slot of a bucket holds a record, of the type and the label of the bucket and with a
  positive ttl; and no two slots of a bucket hold records with the same payload, which for
  records of one type and label is to say that no two of them are equal.
\<close>

definition cached_bucket :: "key \<Rightarrow> service option list \<Rightarrow> bool" where
  "cached_bucket k b =
     (list_all (\<lambda>e. case e of None \<Rightarrow> False | Some r \<Rightarrow> k = (type r, label r) \<and> 0 < ttl r) b
      \<and> distinct (map (map_option payload) b))"

definition cached :: "mdns \<Rightarrow> bool" where
  "cached m =
     (sorted_wrt (<) (map fst (cache m))
      \<and> list_all (\<lambda>d. cached_bucket (fst d) (snd d)) (cache m))"

subsection \<open>Timer handles and pending timers\<close>

text \<open>
  The handles that a list of registry entries holds, and the invariant that ties them to
  the pending timers: the registry is in key order, the handles held are exactly the pending
  timers, each once; timer ids are below the next id; and an entry with a handle has a
  positive ttl and a response that fits the packet buffer.
\<close>

definition handles :: "entry list \<Rightarrow> nat list" where
  "handles es = List.map_filter cache_timeout_id es"

definition timers_ok :: "mdns \<Rightarrow> bool" where
  "timers_ok m =
     (sorted_wrt (<) (map fst (announcements m))
      \<and> mset (handles (all_entries m)) = mset (map fst (timers m))
      \<and> distinct (map fst (timers m))
      \<and> list_all (\<lambda>t. fst t < next_timer_id m) (timers m)
      \<and> list_all (\<lambda>x. cache_timeout_id x \<noteq> None
                       \<longrightarrow> 0 < ttl (svc x) \<and> length (response_packet 0 (svc x)) \<le> 1500)
           (all_entries m))"

subsection \<open>Example records and engines\<close>

text \<open>
  An engine with the local address 10.0.0.7, and a PTR record.  \<open>seen\<close> is the engine after
  it has detected the record as an answer, \<open>seen_then_announced\<close> after it has then
  announced an equal record without broadcasting.  \<open>listening\<close> is the engine with the
  discovery callback 7 for the label of the record, \<open>announced\<close> after it has then
  announced the record with a broadcast.
\<close>

definition engine0 :: mdns where
  "engine0 = mdns_new 167772167 [] []"

definition studio_ptr :: service where
  "studio_ptr = \<lparr>label = ''_apple-midi._udp.local'', ttl = 120,
                  payload = service_ptr ''X._apple-midi._udp.local''\<rparr>"

definition seen :: mdns where
  "seen = snd (detected_service studio_ptr engine0)"

definition seen_then_announced :: mdns where
  "seen_then_announced = snd (announce studio_ptr False seen)"

definition listening :: mdns where
  "listening = snd (on_discovery ''_apple-midi._udp.local'' PTR 7 engine0)"

definition announced :: mdns where
  "announced = snd (announce studio_ptr True listening)"

text \<open>The engine after it has announced the record without broadcasting.\<close>

definition announced_quietly :: mdns where
  "announced_quietly = snd (announce studio_ptr False engine0)"

text \<open>
  A packet with one question, for the PTR records of the label of \<open>studio_ptr\<close>, and one
  answer, a PTR record \<open>other_ptr\<close> of that label.
\<close>

definition other_ptr :: service where
  "other_ptr = \<lparr>label = ''_apple-midi._udp.local'', ttl = 120,
                 payload = service_ptr ''Y._apple-midi._udp.local''\<rparr>"

text \<open>
  \<open>seen_both\<close> is the engine \<open>listening\<close> after it has detected the two records
  \<open>studio_ptr\<close> and \<open>other_ptr\<close> as answers, \<open>seen_both_announced\<close> after it has then
  announced \<open>studio_ptr\<close> without broadcasting; \<open>seen_then_gone\<close> is the engine \<open>seen\<close>
  after it has detected the goodbye (ttl 0) for the record it had cached.
\<close>

definition seen_both :: mdns where
  "seen_both = snd (detected_service other_ptr (snd (detected_service studio_ptr listening)))"

definition seen_then_gone :: mdns where
  "seen_then_gone = snd (detected_service (studio_ptr\<lparr>ttl := 0\<rparr>) seen)"

definition seen_both_announced :: mdns where
  "seen_both_announced = snd (announce studio_ptr False seen_both)"

definition question_and_answer :: "byte list" where
  "question_and_answer =
     [0, 0, 0, 0, 0, 1, 0, 1, 0, 0, 0, 0]
     @ write_label ''_apple-midi._udp.local'' @ [0, 12, 0, 1]
     @ write_label ''_apple-midi._udp.local'' @ [0, 12, 0, 1, 0, 0, 0, 120, 0, 26]
     @ write_label ''Y._apple-midi._udp.local''"

section \<open>Properties\<close>

subsection \<open>Discovery matcher\<close>

lemma endswith_iff: "endswith l suf = (\<exists>pre. l = pre @ suf)"
  unfolding endswith_def
  by (metis append_eq_conv_conj append_take_drop_id diff_add_inverse2 length_append le_add2
      length_drop)

text \<open>
  C4, as the code has it.  \<open>discovery_match\<close> gives: \<open>*.local\<close> matches \<open>foo.local\<close>;
  \<open>*.local\<close> matches \<open>local\<close> too, as \<open>local\<close> ends with the suffix after the asterisk
  and the dot; \<open>foo.local\<close> matches \<open>foo.local\<close> and not \<open>Foo.local\<close>.  A pattern that
  starts with \<open>*.\<close> matches exactly the labels that end with what follows the \<open>*.\<close>; any
  other pattern matches only the identical label.
\<close>

theorem discovery_match_rule:
  "discovery_match ''*.local'' ''foo.local'' = True
   \<and> discovery_match ''*.local'' ''local'' = True
   \<and> discovery_match ''foo.local'' ''foo.local'' = True
   \<and> discovery_match ''foo.local'' ''Foo.local'' = False
   \<and> (\<forall>suf l. discovery_match (''*.'' @ suf) l = (\<exists>pre. l = pre @ suf))
   \<and> (\<forall>p l. take 2 p \<noteq> ''*.'' \<longrightarrow> discovery_match p l = (p = l))"
  by (simp add: discovery_match_def startswith_def endswith_iff numeral_2_eq_2)

theorem discovery_match_rule_witness:
  "take 2 ''foo.local'' \<noteq> ''*.''
   \<and> discovery_match ''foo.local'' ''Foo.local'' = (''foo.local'' = ''Foo.local'')
   \<and> discovery_match (''*.'' @ ''local'') ''local'' = (\<exists>pre. ''local'' = pre @ ''local'')"
  using discovery_match_rule by simp

text \<open>
  C4, as the claim has it: the second of its equations, that \<open>*.local\<close> does not match
  \<open>local\<close>, fails.
\<close>

theorem discovery_match_local_counterexample:
  "discovery_match ''*.local'' ''local'' \<noteq> False"
  by (simp add: discovery_match_def startswith_def endswith_def)


subsection \<open>The body of an SRV response\<close>

text \<open>
  C2, at the SRV record of the specification's fourth scenario.  The SRV body (priority,
  weight, port and the hostname label) has 18 bytes; the packet that \<open>send_response\<close> sends
  announces 30 bytes of data, the SRV body followed by the twelve bytes that the \<open>TXT\<close>
  case writes, because the \<open>SRV\<close> case of the \<^verbatim>\<open>switch\<close> has no \<^verbatim>\<open>break\<close>.
\<close>

theorem send_response_srv_runs_into_txt:
  "send_response \<lparr>label = ''studio._apple-midi._udp.local'', ttl = 60,
                   payload = service_srv ''host.local'' 5004\<rparr> (mdns_new 167772167 [] [])
   = (None, (mdns_new 167772167 [] [])\<lparr>sent :=
       [response_header @ write_label ''studio._apple-midi._udp.local''
        @ write_uint16 SRV @ write_uint16 1 @ write_uint32 60 @ write_uint16 30
        @ (write_uint16 0 @ write_uint16 0 @ write_uint16 5004 @ write_label ''host.local'')
        @ [4, 104, 111, 115, 116, 5, 108, 111, 99, 97, 108, 0]]\<rparr>)
   \<and> length (write_uint16 0 @ write_uint16 0 @ write_uint16 5004 @ write_label ''host.local'') = 18"
  by (simp add: send_response_def response_packet_def rdata_def txt_case_def txt_member_def
      broadcast_def mdns_new_def type_def SRV_def response_header_def
      write_uint16_def write_uint32_def write_label_def write_segment_def write_uint8_def)

subsection \<open>Removing a record from the cache\<close>

text \<open>
  C3, at two caches.  After the answer \<open>PTR X\<close> for a label was observed, its bucket holds
  that one record; a goodbye (ttl 0) for \<open>PTR Y\<close> under the same label finds no equal entry,
  \<^verbatim>\<open>remove_if\<close> returns \<^verbatim>\<open>end()\<close>, and \<open>update_cache\<close> erases at \<^verbatim>\<open>end()\<close>.  In a bucket
  that holds a record twice, a goodbye for it erases one of the two and leaves the other.
\<close>

theorem update_cache_goodbye_erase:
  "detected_service
     \<lparr>label = ''_apple-midi._udp.local'', ttl = 120,
      payload = service_ptr ''X._apple-midi._udp.local''\<rparr> (mdns_new 167772167 [] [])
   = (None, (mdns_new 167772167 [] [])\<lparr>cache :=
       [((PTR, ''_apple-midi._udp.local''),
         [Some \<lparr>label = ''_apple-midi._udp.local'', ttl = 120,
                 payload = service_ptr ''X._apple-midi._udp.local''\<rparr>])]\<rparr>)
   \<and> fst (update_cache
        \<lparr>label = ''_apple-midi._udp.local'', ttl = 0,
         payload = service_ptr ''Y._apple-midi._udp.local''\<rparr>
        ((mdns_new 167772167 [] [])\<lparr>cache :=
          [((PTR, ''_apple-midi._udp.local''),
            [Some \<lparr>label = ''_apple-midi._udp.local'', ttl = 120,
                    payload = service_ptr ''X._apple-midi._udp.local''\<rparr>])]\<rparr>))
     = Some UndefinedBehaviour
   \<and> cache (snd (update_cache
        \<lparr>label = ''a.local'', ttl = 0, payload = service_a 167772165\<rparr>
        ((mdns_new 167772167 [] [])\<lparr>cache :=
          [((A, ''a.local''),
            [Some \<lparr>label = ''a.local'', ttl = 30, payload = service_a 167772165\<rparr>,
             Some \<lparr>label = ''a.local'', ttl = 30, payload = service_a 167772165\<rparr>])]\<rparr>)))
     = [((A, ''a.local''),
         [Some \<lparr>label = ''a.local'', ttl = 30, payload = service_a 167772165\<rparr>])]"
  by (simp add: mdns_new_def detected_service_def own_record_def tocall_def call_all_def
      update_cache_def at_key_def type_def PTR_def A_def equal_def clone_def erase_key_def
      remove_if_def erase_at_def at_cache_def)


subsection \<open>Frame lemmas\<close>

lemma untouched_refl [simp]: "untouched m m"
  by (simp add: untouched_def)

lemma untouched_trans: "untouched m m1 \<Longrightarrow> untouched m1 m2 \<Longrightarrow> untouched m m2"
  by (simp add: untouched_def)

lemma send_response_untouched: "send_response s m = (x, m') \<Longrightarrow> untouched m m'"
  by (auto simp: send_response_def broadcast_def untouched_def Let_def split: if_splits)

lemma send_all_untouched: "send_all rs m = (x, m') \<Longrightarrow> untouched m m'"
proof (induction rs arbitrary: m)
  case Nil
  then show ?case by simp
next
  case (Cons r rs)
  then show ?case
    by (auto split: prod.splits option.splits
        dest: send_response_untouched intro: untouched_trans)
qed

lemma answer_if_known_untouched: "answer_if_known t l m = (x, m') \<Longrightarrow> untouched m m'"
  by (auto simp: answer_if_known_def split: prod.splits option.splits dest: send_all_untouched)

lemma update_cache_untouched: "update_cache s m = (x, m') \<Longrightarrow> untouched m m'"
  by (auto simp: update_cache_def Let_def untouched_def split: option.splits prod.splits if_splits)

lemma detected_service_untouched: "detected_service s m = (x, m') \<Longrightarrow> untouched m m'"
  by (auto simp: detected_service_def Let_def call_all_def untouched_def split: if_splits
      dest!: update_cache_untouched)

lemma deliver_cached_untouched: "deliver_cached k is m = (x, m') \<Longrightarrow> untouched m m'"
proof (induction "is" arbitrary: m)
  case Nil
  then show ?case by simp
next
  case (Cons i "is")
  then show ?case
    by (auto simp: Let_def split: if_splits option.splits prod.splits
        dest: detected_service_untouched intro: untouched_trans)
qed

lemma query_name_untouched: "query_name n t m = (x, m') \<Longrightarrow> untouched m m'"
  by (auto simp: query_name_def broadcast_def split: option.splits if_splits
      dest: deliver_cached_untouched) (simp add: untouched_def)

lemma read_question_untouched: "read_question buf pos m = (x, m') \<Longrightarrow> untouched m m'"
  by (auto simp: read_question_def split: option.splits prod.splits sum.splits
      dest: answer_if_known_untouched)

lemma read_answer_untouched: "read_answer buf pos m = (x, m') \<Longrightarrow> untouched m m'"
  by (auto simp: read_answer_def split: option.splits prod.splits sum.splits if_splits
      dest: detected_service_untouched)

lemma read_questions_untouched: "read_questions n buf pos m = (x, m') \<Longrightarrow> untouched m m'"
proof (induction n arbitrary: pos m)
  case 0
  then show ?case by simp
next
  case (Suc n)
  then show ?case
    by (auto split: prod.splits sum.splits if_splits
        dest: read_question_untouched intro: untouched_trans)
qed

lemma read_answers_untouched: "read_answers n buf pos m = (x, m') \<Longrightarrow> untouched m m'"
proof (induction n arbitrary: pos m)
  case 0
  then show ?case by simp
next
  case (Suc n)
  then show ?case
    by (auto split: prod.splits sum.splits if_splits
        dest: read_answer_untouched intro: untouched_trans)
qed

lemma parse_packet_untouched: "parse_packet buf m = (x, m') \<Longrightarrow> untouched m m'"
  by (auto simp: parse_packet_def split: option.splits prod.splits sum.splits if_splits
      dest: read_questions_untouched read_answers_untouched intro: untouched_trans)

lemma mdns_ready_untouched:
  "mdns_ready sender bytes m = (x, m')
   \<Longrightarrow> untouched (m\<lparr>ip4 := route_get_ip_for_route (routes m) sender\<rparr>) m'"
  by (auto simp: mdns_ready_def Let_def split: if_splits dest: parse_packet_untouched)

subsection \<open>Lengths of encoded labels\<close>

lemma split_dots_not_Nil: "split_dots name \<noteq> []"
  by (induction name) (auto split: list.splits)

lemma length_segments: "length (concat (map write_segment (split_dots name))) = Suc (length name)"
proof (induction name)
  case Nil
  then show ?case by (simp add: write_segment_def write_uint8_def)
next
  case (Cons c cs)
  then show ?case
    using split_dots_not_Nil [of cs]
    by (auto simp: write_segment_def write_uint8_def split: list.splits)
qed

lemma length_write_label: "length (write_label name) = length name + 2"
  by (simp add: write_label_def length_segments)

lemma length_query_packet: "length (query_packet name t) = length name + 18"
  by (simp add: query_packet_def query_header_def length_write_label write_uint16_def)

lemma route_no_match:
  "list_all (\<lambda>route. \<not> match route other) rs \<Longrightarrow> route_get_ip_for_route rs other = 0"
  by (induction rs) auto

subsection \<open>The local address follows the sender of a datagram\<close>

text \<open>
  C10.  Whatever datagram arrives, \<open>mdns_ready\<close> leaves the engine with \<open>ip4\<close> set to what
  the route resolver gives for the sender's address, which is 0 when no route matches.  A
  datagram of fewer than 16 bytes changes nothing else: the engine is the old one with the
  new \<open>ip4\<close>.  An A record with the address 0.0.0.0 that is sent afterwards carries that
  \<open>ip4\<close> as its four bytes of data.
\<close>

theorem datagram_sets_ip4:
  "ip4 (snd (mdns_ready sender bytes m)) = route_get_ip_for_route (routes m) sender
   \<and> (list_all (\<lambda>route. \<not> match route sender) (routes m)
        \<longrightarrow> ip4 (snd (mdns_ready sender bytes m)) = 0)
   \<and> (length bytes < 16
        \<longrightarrow> mdns_ready sender bytes m
            = (None, m\<lparr>ip4 := route_get_ip_for_route (routes m) sender\<rparr>))
   \<and> (length l \<le> 100
        \<longrightarrow> send_response \<lparr>label = l, ttl = t, payload = service_a 0\<rparr>
              (snd (mdns_ready sender bytes m))
            = (None, broadcast
                 (response_header @ write_label l @ write_uint16 A @ write_uint16 1
                  @ write_uint32 t @ write_uint16 4
                  @ write_uint32 (route_get_ip_for_route (routes m) sender))
                 (snd (mdns_ready sender bytes m))))"
proof -
  obtain x m' where r: "mdns_ready sender bytes m = (x, m')"
    by (cases "mdns_ready sender bytes m")
  from mdns_ready_untouched [OF r]
  have ip: "ip4 m' = route_get_ip_for_route (routes m) sender"
    by (simp add: untouched_def)
  have short: "length bytes < 16 \<Longrightarrow> mdns_ready sender bytes m
      = (None, m\<lparr>ip4 := route_get_ip_for_route (routes m) sender\<rparr>)"
    by (simp add: mdns_ready_def Let_def)
  have a: "length l \<le> 100 \<Longrightarrow> send_response \<lparr>label = l, ttl = t, payload = service_a 0\<rparr> m'
      = (None, broadcast
                 (response_header @ write_label l @ write_uint16 A @ write_uint16 1
                  @ write_uint32 t @ write_uint16 4
                  @ write_uint32 (route_get_ip_for_route (routes m) sender)) m')"
    by (simp add: send_response_def response_packet_def rdata_def type_def ip Let_def
        length_write_label response_header_def write_uint16_def write_uint32_def)
  show ?thesis
    using ip short a route_no_match [of sender "routes m"] by (simp add: r)
qed


theorem datagram_sets_ip4_witness:
  "length [7, 2, 3 :: nat] < 16
   \<and> mdns_ready 167772165 [7, 2, 3]
         (mdns_new 0 [\<lparr>ifa_inet = True, ifa_addr = 3232235778, ifa_netmask = 4294967040,
                         ifa_loopback = False\<rparr>,
                      \<lparr>ifa_inet = True, ifa_addr = 167772167, ifa_netmask = 4294967040,
                         ifa_loopback = False\<rparr>] [])
       = (None, (mdns_new 0 [\<lparr>ifa_inet = True, ifa_addr = 3232235778, ifa_netmask = 4294967040,
                         ifa_loopback = False\<rparr>,
                      \<lparr>ifa_inet = True, ifa_addr = 167772167, ifa_netmask = 4294967040,
                         ifa_loopback = False\<rparr>] [])\<lparr>ip4 := 167772167\<rparr>)
   \<and> list_all (\<lambda>route. \<not> match route 134744072)
         (routes (mdns_new 0 [\<lparr>ifa_inet = True, ifa_addr = 3232235778, ifa_netmask = 4294967040,
                         ifa_loopback = False\<rparr>,
                      \<lparr>ifa_inet = True, ifa_addr = 167772167, ifa_netmask = 4294967040,
                         ifa_loopback = False\<rparr>] []))
   \<and> ip4 (snd (mdns_ready 134744072 [7, 2, 3]
         (mdns_new 0 [\<lparr>ifa_inet = True, ifa_addr = 3232235778, ifa_netmask = 4294967040,
                         ifa_loopback = False\<rparr>,
                      \<lparr>ifa_inet = True, ifa_addr = 167772167, ifa_netmask = 4294967040,
                         ifa_loopback = False\<rparr>] []))) = 0
   \<and> length ''host.local'' \<le> 100
   \<and> sent (snd (send_response \<lparr>label = ''host.local'', ttl = 60, payload = service_a 0\<rparr>
         (snd (mdns_ready 167772165 [7, 2, 3]
           (mdns_new 0 [\<lparr>ifa_inet = True, ifa_addr = 3232235778, ifa_netmask = 4294967040,
                         ifa_loopback = False\<rparr>,
                      \<lparr>ifa_inet = True, ifa_addr = 167772167, ifa_netmask = 4294967040,
                         ifa_loopback = False\<rparr>] [])))))
       = [[0, 0, 132, 0, 0, 0, 0, 1, 0, 0, 0, 0,
           4, 104, 111, 115, 116, 5, 108, 111, 99, 97, 108, 0,
           0, 1, 0, 1, 0, 0, 0, 60, 0, 4, 10, 0, 0, 7]]"
proof -
  let ?W = "(mdns_new 0 [\<lparr>ifa_inet = True, ifa_addr = 3232235778, ifa_netmask = 4294967040,
                         ifa_loopback = False\<rparr>,
                      \<lparr>ifa_inet = True, ifa_addr = 167772167, ifa_netmask = 4294967040,
                         ifa_loopback = False\<rparr>] [])"
  have w: "?W = \<lparr>ip4 = 3232235778,
                routes = [\<lparr>ip = 3232235778, mask = 4294967040\<rparr>,
                          \<lparr>ip = 167772167, mask = 4294967040\<rparr>],
                announcements = [], discovery_map = [], query_map = [], cache = [],
                timers = [], next_timer_id = 0, sent = [], called = []\<rparr>"
    by (simp add: mdns_new_def)
  have r1: "route_get_ip_for_route (routes ?W) 167772165 = 167772167"
    by (simp add: w match_def)
  have r2: "list_all (\<lambda>route. \<not> match route 134744072) (routes ?W)"
    by (simp add: w match_def)
  note t1 = datagram_sets_ip4 [of 167772165 "[7, 2, 3]" ?W "''host.local''" 60]
  note t2 = datagram_sets_ip4 [of 134744072 "[7, 2, 3]" ?W "''host.local''" 60]
  have l3: "length [7, 2, 3 :: nat] < 16" and l10: "length ''host.local'' \<le> 100"
    by simp_all
  from t1 l3 have "mdns_ready 167772165 [7, 2, 3] ?W
      = (None, ?W\<lparr>ip4 := route_get_ip_for_route (routes ?W) 167772165\<rparr>)"
    by blast
  then have a: "mdns_ready 167772165 [7, 2, 3] ?W = (None, ?W\<lparr>ip4 := 167772167\<rparr>)"
    by (simp only: r1)
  from t2 r2 have b: "ip4 (snd (mdns_ready 134744072 [7, 2, 3] ?W)) = 0"
    by blast
  from t1 l10 have "send_response \<lparr>label = ''host.local'', ttl = 60, payload = service_a 0\<rparr>
        (snd (mdns_ready 167772165 [7, 2, 3] ?W))
      = (None, broadcast
           (response_header @ write_label ''host.local'' @ write_uint16 A @ write_uint16 1
            @ write_uint32 60 @ write_uint16 4
            @ write_uint32 (route_get_ip_for_route (routes ?W) 167772165))
           (snd (mdns_ready 167772165 [7, 2, 3] ?W)))"
    by blast
  then have s1: "send_response \<lparr>label = ''host.local'', ttl = 60, payload = service_a 0\<rparr>
        (snd (mdns_ready 167772165 [7, 2, 3] ?W))
      = (None, broadcast
           (response_header @ write_label ''host.local'' @ write_uint16 A @ write_uint16 1
            @ write_uint32 60 @ write_uint16 4 @ write_uint32 167772167)
           (snd (mdns_ready 167772165 [7, 2, 3] ?W)))"
    by (simp only: r1)
  have s2: "sent (snd (mdns_ready 167772165 [7, 2, 3] ?W)) = []"
    by (simp only: a) (simp add: mdns_new_def)
  have p: "response_header @ write_label ''host.local'' @ write_uint16 A @ write_uint16 1
            @ write_uint32 60 @ write_uint16 4 @ write_uint32 167772167
      = [0, 0, 132, 0, 0, 0, 0, 1, 0, 0, 0, 0,
           4, 104, 111, 115, 116, 5, 108, 111, 99, 97, 108, 0,
           0, 1, 0, 1, 0, 0, 0, 60, 0, 4, 10, 0, 0, 7]"
    by (simp add: response_header_def A_def
        write_uint16_def write_uint32_def write_label_def write_segment_def write_uint8_def)
  have c: "sent (snd (send_response \<lparr>label = ''host.local'', ttl = 60, payload = service_a 0\<rparr>
        (snd (mdns_ready 167772165 [7, 2, 3] ?W))))
      = [[0, 0, 132, 0, 0, 0, 0, 1, 0, 0, 0, 0,
           4, 104, 111, 115, 116, 5, 108, 111, 99, 97, 108, 0,
           0, 1, 0, 1, 0, 0, 0, 60, 0, 4, 10, 0, 0, 7]]"
    unfolding s1 p by (simp add: broadcast_def s2)
  show ?thesis
    using a b c r2 l3 l10 by blast
qed


subsection \<open>Tables\<close>

lemma map_of_set_key: "map_of (set_key k v m) = (map_of m)(k \<mapsto> v)"
  by (induction m) (auto simp: fun_eq_iff)

lemma at_key_set_key: "at_key k' (set_key k v m) = (if k' = k then v else at_key k' m)"
  by (simp add: at_key_def map_of_set_key)

lemma find_key_set_key: "find_key k' (set_key k v m) = (if k' = k then Some v else find_key k' m)"
  by (simp add: find_key_def map_of_set_key)

lemma find_key_at_key: "find_key k m = Some v \<Longrightarrow> at_key k m = v"
  by (simp add: find_key_def at_key_def)

lemma set_set_key: "set (set_key k v m) \<subseteq> insert (k, v) (set m)"
  by (induction m) (auto split: if_splits)

lemma set_key_mem: "(k, v) \<in> set (set_key k v m)"
  by (induction m) auto

lemma keys_set_key: "fst ` set (set_key k v m) = insert k (fst ` set m)"
proof (induction m)
  case Nil
  then show ?case by simp
next
  case (Cons a m)
  then show ?case
    by (cases a) (simp add: insert_commute)
qed

lemma sorted_set_key:
  "sorted_wrt (<) (map fst m) \<Longrightarrow> sorted_wrt (<) (map fst (set_key k v m))"
proof (induction m)
  case Nil
  then show ?case by simp
next
  case (Cons a m)
  obtain k' v' where a: "a = (k', v')" by (cases a)
  show ?case
  proof (cases "k = k'")
    case True
    with Cons.prems a show ?thesis by simp
  next
    case False
    show ?thesis
    proof (cases "k < k'")
      case True
      with Cons.prems a False show ?thesis
        by (auto intro: less_trans)
    next
      case g: False
      with False have "k' < k" by simp
      moreover from Cons have "sorted_wrt (<) (map fst (set_key k v m))" by simp
      moreover have "\<forall>x \<in> fst ` set (set_key k v m). k' < x"
        using Cons.prems a \<open>k' < k\<close> by (auto simp: keys_set_key)
      ultimately show ?thesis
        using a False g by auto
    qed
  qed
qed

lemma set_key_same:
  "sorted_wrt (<) (map fst c) \<Longrightarrow> map_of c k = Some v \<Longrightarrow> set_key k v c = c"
proof (induction c)
  case Nil
  then show ?case by simp
next
  case (Cons a c)
  obtain k' v' where a: "a = (k', v')" by (cases a)
  show ?case
  proof (cases "k = k'")
    case True
    with Cons.prems a show ?thesis by simp
  next
    case False
    with Cons.prems a have m: "map_of c k = Some v" by simp
    then have "k \<in> fst ` set c"
      by (metis domI dom_map_of_conv_image_fst)
    with Cons.prems a have "k' < k" by auto
    then have "\<not> k < k'" by simp
    with Cons.IH [OF _ m] Cons.prems a False show ?thesis by simp
  qed
qed

lemma erase_key_set_key: "erase_key k (set_key k v q) = erase_key k q"
  by (induction q) (auto simp: erase_key_def)

lemma at_key_erase_key: "at_key k (erase_key k q) = []"
proof -
  have "k \<notin> fst ` set (erase_key k q)"
    by (auto simp: erase_key_def)
  then have "map_of (erase_key k q) k = None"
    by (simp add: map_of_eq_None_iff)
  then show ?thesis
    by (simp add: at_key_def)
qed

lemma erase_key_idem: "erase_key k (erase_key k q) = erase_key k q"
  by (simp add: erase_key_def)

lemma own_record_untouched: "untouched m m' \<Longrightarrow> own_record m' s = own_record m s"
  by (simp add: own_record_def untouched_def)

lemma detected_service_own: "own_record m s \<Longrightarrow> detected_service s m = (None, m)"
  by (simp add: detected_service_def)

lemma deliver_cached_own:
  "\<forall>i \<in> set is. i < length (at_key k (cache m))
      \<and> (case at_key k (cache m) ! i of None \<Rightarrow> False | Some s \<Rightarrow> own_record m s)
   \<Longrightarrow> deliver_cached k is m = (None, m)"
  by (induction "is") (auto simp: detected_service_own split: option.splits)

lemma all_own_indices:
  "list_all (\<lambda>d. case d of None \<Rightarrow> False | Some s \<Rightarrow> own_record m s) bucket
   \<Longrightarrow> \<forall>i \<in> set [0 ..< length bucket]. i < length bucket
      \<and> (case bucket ! i of None \<Rightarrow> False | Some s \<Rightarrow> own_record m s)"
  by (auto simp: list_all_length)

subsection \<open>A query whose cached records are all the engine's own\<close>

text \<open>
  C9.  When the cache bucket of \<open>(type, name)\<close> is not empty and every record in it
  equals a record that is announced under a key of its type, \<open>query name type cb\<close> sends
  no packet and calls no callback, and \<open>cb\<close> stays registered under \<open>(type, name)\<close>: the
  engine is the old one with \<open>cb\<close> appended to the query callbacks of that key.
\<close>

theorem query_of_own_records:
  assumes "length name \<le> 100"
    and "find_key (t, name) (cache m) = Some bucket"
    and "bucket \<noteq> []"
    and "list_all (\<lambda>d. case d of None \<Rightarrow> False | Some s \<Rightarrow> own_record m s) bucket"
  shows "query name t cb m
           = (None, m\<lparr>query_map := set_key (t, name) (at_key (t, name) (query_map m) @ [cb])
                                      (query_map m)\<rparr>)
         \<and> sent (snd (query name t cb m)) = sent m
         \<and> called (snd (query name t cb m)) = called m
         \<and> at_key (t, name) (query_map (snd (query name t cb m)))
             = at_key (t, name) (query_map m) @ [cb]"
proof -
  let ?m1 = "m\<lparr>query_map := set_key (t, name) (at_key (t, name) (query_map m) @ [cb])
                                      (query_map m)\<rparr>"
  have own: "own_record ?m1 s = own_record m s" for s
    by (simp add: own_record_def)
  have b: "at_key (t, name) (cache m) = bucket"
    using assms(2) by (simp add: find_key_at_key)
  have "deliver_cached (t, name) [0 ..< length bucket] ?m1 = (None, ?m1)"
    by (rule deliver_cached_own)
      (use all_own_indices [OF assms(4)] in \<open>auto simp: b own split: option.splits\<close>)
  then have "query name t cb m = (None, ?m1)"
    using assms(1,2) by (simp add: query_def query_name_def)
  then show ?thesis
    by (simp add: at_key_set_key)
qed


lemma seen_then_announced_eq:
  "seen_then_announced
   = \<lparr>ip4 = 167772167, routes = [],
      announcements = [((PTR, ''_apple-midi._udp.local''),
                        [\<lparr>svc = studio_ptr, cache_timeout_id = None\<rparr>])],
      discovery_map = [], query_map = [],
      cache = [((PTR, ''_apple-midi._udp.local''), [Some studio_ptr])],
      timers = [], next_timer_id = 0, sent = [], called = []\<rparr>"
  by (simp add: seen_then_announced_def seen_def engine0_def studio_ptr_def mdns_new_def announce_def
      detected_service_def own_record_def tocall_def call_all_def update_cache_def at_key_def
      type_def PTR_def equal_def clone_def erase_key_def at_cache_def)

theorem query_of_own_records_witness:
  "length ''_apple-midi._udp.local'' \<le> 100
   \<and> find_key (PTR, ''_apple-midi._udp.local'') (cache seen_then_announced) = Some [Some studio_ptr]
   \<and> [Some studio_ptr] \<noteq> []
   \<and> list_all (\<lambda>d. case d of None \<Rightarrow> False | Some s \<Rightarrow> own_record seen_then_announced s)
         [Some studio_ptr]
   \<and> sent (snd (query ''_apple-midi._udp.local'' PTR 7 seen_then_announced)) = []
   \<and> called (snd (query ''_apple-midi._udp.local'' PTR 7 seen_then_announced)) = []
   \<and> at_key (PTR, ''_apple-midi._udp.local'')
        (query_map (snd (query ''_apple-midi._udp.local'' PTR 7 seen_then_announced))) = [7]"
proof -
  have h1: "length ''_apple-midi._udp.local'' \<le> 100"
    by simp
  have h2: "find_key (PTR, ''_apple-midi._udp.local'') (cache seen_then_announced)
      = Some [Some studio_ptr]"
    by (simp add: seen_then_announced_eq find_key_def)
  have h3: "[Some studio_ptr] \<noteq> []"
    by simp
  have h4: "list_all (\<lambda>d. case d of None \<Rightarrow> False | Some s \<Rightarrow> own_record seen_then_announced s)
      [Some studio_ptr]"
    by (simp add: seen_then_announced_eq own_record_def equal_def type_def studio_ptr_def PTR_def)
  from query_of_own_records [OF h1 h2 h3 h4, of 7]
  have "sent (snd (query ''_apple-midi._udp.local'' PTR 7 seen_then_announced)) = sent seen_then_announced"
    and "called (snd (query ''_apple-midi._udp.local'' PTR 7 seen_then_announced)) = called seen_then_announced"
    and "at_key (PTR, ''_apple-midi._udp.local'')
        (query_map (snd (query ''_apple-midi._udp.local'' PTR 7 seen_then_announced)))
      = at_key (PTR, ''_apple-midi._udp.local'') (query_map seen_then_announced) @ [7]"
    by blast+
  then show ?thesis
    using h1 h2 h3 h4 by (simp add: seen_then_announced_eq at_key_def)
qed

subsection \<open>The registry in reachable engines\<close>

lemma at_key_mem: "x \<in> set (at_key k m) \<Longrightarrow> (k, at_key k m) \<in> set m"
  by (auto simp: at_key_def split: option.splits dest: map_of_SomeD)

lemma filedD:
  "filed m \<Longrightarrow> (k, es) \<in> set (announcements m) \<Longrightarrow> x \<in> set es
   \<Longrightarrow> k = (type (svc x), label (svc x))"
  by (auto simp: filed_def list_all_iff)

lemma filedI:
  "(\<And>k es x. (k, es) \<in> set (announcements m) \<Longrightarrow> x \<in> set es
      \<Longrightarrow> k = (type (svc x), label (svc x))) \<Longrightarrow> filed m"
  by (auto simp: filed_def list_all_iff)

lemma filed_untouched: "untouched m m' \<Longrightarrow> filed m \<Longrightarrow> filed m'"
  by (simp add: filed_def untouched_def)

lemma filed_set_key:
  assumes "filed m"
    and "\<And>x. x \<in> set v \<Longrightarrow> k = (type (svc x), label (svc x))"
    and "announcements m' = set_key k v (announcements m)"
  shows "filed m'"
proof (rule filedI)
  fix k' es x
  assume "(k', es) \<in> set (announcements m')" and x: "x \<in> set es"
  then have "(k', es) = (k, v) \<or> (k', es) \<in> set (announcements m)"
    using set_set_key [of k v "announcements m"] assms(3) by auto
  then show "k' = (type (svc x), label (svc x))"
    using assms(1,2) x by (auto dest: filedD)
qed

lemma query_untouched: "query n t f m = (x, m') \<Longrightarrow> untouched m m'"
  by (auto simp: query_def split: if_splits dest!: query_name_untouched)
     (simp add: untouched_def)

lemma announce_thrown: "announce srv b m = (Some e, m') \<Longrightarrow> m' = m"
  by (auto simp: announce_def Let_def send_response_def split: if_splits prod.splits)

lemma announce_returned:
  assumes "announce srv b m = (None, m')"
  shows "announcements m'
           = set_key (type srv, label srv)
               (at_key (type srv, label srv) (announcements m)
                @ [\<lparr>svc = srv,
                     cache_timeout_id = (if b \<and> ttl srv > 0 then Some (next_timer_id m) else None)\<rparr>])
               (announcements m)"
    and "timers m' = (if b \<and> ttl srv > 0 then timers m @ [(next_timer_id m, ttl srv)] else timers m)"
    and "next_timer_id m' = (if b \<and> ttl srv > 0 then Suc (next_timer_id m) else next_timer_id m)"
    and "b \<Longrightarrow> length (response_packet (ip4 m) srv) \<le> 1500"
  using assms
  by (auto simp: announce_def Let_def send_response_def broadcast_def reannounce_later_def
      add_timer_event_def split: if_splits)

lemma unannounce_thrown: "unannounce srv m = (Some e, m') \<Longrightarrow> m' = m"
  by (auto simp: unannounce_def Let_def send_response_def split: if_splits prod.splits)

lemma unannounce_returned:
  assumes "unannounce srv m = (None, m')"
  shows "announcements m'
           = set_key (type srv, label srv)
               (filter (\<lambda>x. \<not> equal (svc x) (srv\<lparr>ttl := 0\<rparr>))
                  (at_key (type srv, label srv) (announcements m)))
               (announcements m)"
    and "timers m'
           = cancel_timers
               (filter (\<lambda>x. equal (svc x) (srv\<lparr>ttl := 0\<rparr>))
                  (at_key (type srv, label srv) (announcements m)))
               (timers m)"
    and "next_timer_id m' = next_timer_id m"
  using assms
  by (auto simp: unannounce_def Let_def send_response_def broadcast_def type_def
      split: if_splits)

lemma timer_fired_cases:
  assumes "timer_fired i m = (x, m')"
  shows "(announcements m' = announcements m \<and> timers m' = timers m
            \<and> next_timer_id m' = next_timer_id m)
         \<or> x \<noteq> None \<and> announcements m' = announcements m
            \<and> timers m' = filter (\<lambda>t. fst t \<noteq> i) (timers m)
            \<and> next_timer_id m' = next_timer_id m
         \<or> (\<exists>srv. x = None \<and> i \<in> fst ` set (timers m)
              \<and> find (\<lambda>x. cache_timeout_id x = Some i) (all_entries m) = Some srv
              \<and> announcements m'
                  = map (\<lambda>d. (fst d, map (rearm i (next_timer_id m)) (snd d))) (announcements m)
              \<and> timers m' = filter (\<lambda>t. fst t \<noteq> i) (timers m) @ [(next_timer_id m, ttl (svc srv))]
              \<and> next_timer_id m' = Suc (next_timer_id m))"
  using assms
  by (auto simp: timer_fired_def Let_def send_response_def broadcast_def reannounce_later_def
      add_timer_event_def all_entries_def list_ex_iff split: if_splits option.splits)

lemma announce_filed: "filed m \<Longrightarrow> announce srv b m = (x, m') \<Longrightarrow> filed m'"
proof (cases x)
  case None
  assume f: "filed m" and "announce srv b m = (x, m')"
  with None have m': "announcements m'
           = set_key (type srv, label srv)
               (at_key (type srv, label srv) (announcements m)
                @ [\<lparr>svc = srv,
                     cache_timeout_id = (if b \<and> ttl srv > 0 then Some (next_timer_id m) else None)\<rparr>])
               (announcements m)"
    by (simp add: announce_returned)
  show "filed m'"
  proof (rule filed_set_key [OF f _ m'])
    fix x assume "x \<in> set (at_key (type srv, label srv) (announcements m)
                @ [\<lparr>svc = srv,
                     cache_timeout_id = (if b \<and> ttl srv > 0 then Some (next_timer_id m) else None)\<rparr>])"
    then show "(type srv, label srv) = (type (svc x), label (svc x))"
      using f by (auto dest: at_key_mem filedD)
  qed
next
  case (Some e)
  assume "filed m" and "announce srv b m = (x, m')"
  with Some show "filed m'"
    by (auto dest: announce_thrown)
qed

lemma unannounce_filed: "filed m \<Longrightarrow> unannounce srv m = (x, m') \<Longrightarrow> filed m'"
proof (cases x)
  case None
  assume f: "filed m" and "unannounce srv m = (x, m')"
  with None have m': "announcements m'
           = set_key (type srv, label srv)
               (filter (\<lambda>x. \<not> equal (svc x) (srv\<lparr>ttl := 0\<rparr>))
                  (at_key (type srv, label srv) (announcements m)))
               (announcements m)"
    by (simp add: unannounce_returned)
  show "filed m'"
  proof (rule filed_set_key [OF f _ m'])
    fix x assume "x \<in> set (filter (\<lambda>x. \<not> equal (svc x) (srv\<lparr>ttl := 0\<rparr>))
                  (at_key (type srv, label srv) (announcements m)))"
    then show "(type srv, label srv) = (type (svc x), label (svc x))"
      using f by (auto dest: at_key_mem filedD)
  qed
next
  case (Some e)
  assume "filed m" and "unannounce srv m = (x, m')"
  with Some show "filed m'"
    by (auto dest: unannounce_thrown)
qed

lemma svc_rearm [simp]: "svc (rearm i j x) = svc x"
  by (simp add: rearm_def)

lemma filed_rearm:
  assumes "filed m"
    and "announcements m' = map (\<lambda>d. (fst d, map (rearm i j) (snd d))) (announcements m)"
  shows "filed m'"
proof (rule filedI)
  fix k es x
  assume "(k, es) \<in> set (announcements m')" and "x \<in> set es"
  with assms(2) obtain es0 x0
    where "(k, es0) \<in> set (announcements m)" and "x0 \<in> set es0" and "svc x = svc x0"
    by auto
  with filedD [OF assms(1)] show "k = (type (svc x), label (svc x))"
    by metis
qed

lemma timer_fired_filed:
  assumes "filed m" and "timer_fired i m = (x, m')"
  shows "filed m'"
proof -
  from timer_fired_cases [OF assms(2)]
  have "announcements m' = announcements m
        \<or> announcements m'
            = map (\<lambda>d. (fst d, map (rearm i (next_timer_id m)) (snd d))) (announcements m)"
    by blast
  then show ?thesis
  proof
    assume "announcements m' = announcements m"
    with assms(1) show ?thesis by (simp add: filed_def)
  next
    assume "announcements m'
            = map (\<lambda>d. (fst d, map (rearm i (next_timer_id m)) (snd d))) (announcements m)"
    with assms(1) show ?thesis by (rule filed_rearm)
  qed
qed

lemma reachable_filed: "reachable m \<Longrightarrow> filed m"
proof (induction rule: reachable.induct)
  case (new default_ip addrs static_routes)
  show ?case
    by (simp add: filed_def mdns_new_def split: prod.splits)
next
  case (on_discovery m service qt f x m')
  then show ?case
    by (auto simp: on_discovery_def filed_def split: if_splits)
next
  case (remove_discovery m service qt)
  then show ?case
    by (simp add: remove_discovery_def filed_def)
next
  case (query m service qt f x m')
  then show ?case
    by (blast intro: filed_untouched query_untouched)
next
  case (query_name m service qt x m')
  then show ?case
    by (blast intro: filed_untouched query_name_untouched)
next
  case (announce m srv b x m')
  then show ?case
    by (blast intro: announce_filed)
next
  case (unannounce m srv x m')
  then show ?case
    by (blast intro: unannounce_filed)
next
  case (timer m timer_id x m')
  then show ?case
    by (blast intro: timer_fired_filed)
next
  case (datagram m sender bytes x m')
  from mdns_ready_untouched [OF datagram(2)] datagram(4) show ?case
    by (simp add: filed_def untouched_def)
next
  case (other_engine m addrs)
  then show ?case
    by (simp add: filed_def)
qed

lemma own_recordI:
  "(k, es) \<in> set (announcements m) \<Longrightarrow> x \<in> set es \<Longrightarrow> fst k = type s \<Longrightarrow> equal (svc x) s
   \<Longrightarrow> own_record m s"
  unfolding own_record_def list_ex_iff by (rule bexI [of _ "(k, es)"]) auto

subsection \<open>Loopback suppression\<close>

text \<open>
  C5.  After \<open>announce R True\<close> has returned, \<open>detected_service\<close> of any record equal to
  \<open>R\<close> returns at once: the engine is unchanged, so no discovery callback (and no other
  callback) is called.  The same holds in every reachable engine for a record that equals
  a record of the announcement registry.
\<close>

theorem loopback_suppression:
  "(announce R True m = (None, m') \<and> equal R r
      \<longrightarrow> detected_service r m' = (None, m') \<and> called (snd (detected_service r m')) = called m')
   \<and> (reachable m2 \<and> x \<in> set (all_entries m2) \<and> equal (svc x) r
      \<longrightarrow> detected_service r m2 = (None, m2)
          \<and> called (snd (detected_service r m2)) = called m2)"
proof (intro conjI impI)
  assume a: "announce R True m = (None, m') \<and> equal R r"
  let ?e = "\<lparr>svc = R, cache_timeout_id = (if True \<and> ttl R > 0 then Some (next_timer_id m) else None)\<rparr>"
  let ?v = "at_key (type R, label R) (announcements m) @ [?e]"
  from a have "announce R True m = (None, m')"
    by simp
  then have "announcements m' = set_key (type R, label R) ?v (announcements m)"
    by (rule announce_returned(1))
  then have "((type R, label R), ?v) \<in> set (announcements m')"
    by (simp add: set_key_mem)
  moreover have "?e \<in> set ?v" by simp
  ultimately have "own_record m' r"
  proof (rule own_recordI)
    show "fst (type R, label R) = type r"
      using a by (simp add: equal_def)
    show "equal (svc ?e) r"
      using a by simp
  qed
  then show "detected_service r m' = (None, m')"
    by (rule detected_service_own)
  then show "called (snd (detected_service r m')) = called m'"
    by simp
next
  assume a: "reachable m2 \<and> x \<in> set (all_entries m2) \<and> equal (svc x) r"
  then obtain k es where k: "(k, es) \<in> set (announcements m2)" and x: "x \<in> set es"
    by (auto simp: all_entries_def)
  with a have "k = (type (svc x), label (svc x))"
    by (auto dest: reachable_filed filedD)
  then have "fst k = type r"
    using a by (simp add: equal_def)
  moreover have "equal (svc x) r"
    using a by simp
  ultimately have "own_record m2 r"
    using k x by (blast intro: own_recordI)
  then show "detected_service r m2 = (None, m2)"
    by (rule detected_service_own)
  then show "called (snd (detected_service r m2)) = called m2"
    by simp
qed


lemma announced_eq:
  "announced
   = \<lparr>ip4 = 167772167, routes = [],
      announcements = [((PTR, ''_apple-midi._udp.local''),
                        [\<lparr>svc = studio_ptr, cache_timeout_id = Some 0\<rparr>])],
      discovery_map = [((PTR, ''_apple-midi._udp.local''), [7])], query_map = [],
      cache = [], timers = [(0, 120)], next_timer_id = Suc 0,
      sent = [response_packet 167772167 studio_ptr], called = []\<rparr>"
proof -
  have "length (response_packet 167772167 studio_ptr) \<le> 1500"
    by (simp add: response_packet_def rdata_def studio_ptr_def length_write_label
        response_header_def write_uint16_def write_uint32_def)
  then show ?thesis
    by (simp add: announced_def listening_def engine0_def mdns_new_def on_discovery_def
        announce_def send_response_def broadcast_def reannounce_later_def add_timer_event_def
        at_key_def) (simp add: studio_ptr_def type_def PTR_def)
qed

lemma reachable_listening: "reachable listening"
  unfolding listening_def engine0_def
  by (rule reachable.on_discovery [OF reachable.new]) (rule prod.collapse [symmetric])

lemma reachable_announced: "reachable announced"
  unfolding announced_def
  by (rule reachable.announce [OF reachable_listening]) (rule prod.collapse [symmetric])

theorem loopback_suppression_witness:
  "announce studio_ptr True listening = (None, announced)
   \<and> equal studio_ptr (studio_ptr\<lparr>ttl := 0\<rparr>)
   \<and> reachable announced
   \<and> \<lparr>svc = studio_ptr, cache_timeout_id = Some 0\<rparr> \<in> set (all_entries announced)
   \<and> tocall announced (studio_ptr\<lparr>ttl := 0\<rparr>) = [7]
   \<and> detected_service (studio_ptr\<lparr>ttl := 0\<rparr>) announced = (None, announced)
   \<and> called (snd (detected_service (studio_ptr\<lparr>ttl := 0\<rparr>) announced)) = []"
proof -
  have "fst (announce studio_ptr True listening) = None"
    by (simp add: listening_def engine0_def mdns_new_def on_discovery_def
        announce_def send_response_def Let_def response_packet_def rdata_def studio_ptr_def
        length_write_label response_header_def write_uint16_def write_uint32_def
        reannounce_later_def add_timer_event_def)
  then have h1: "announce studio_ptr True listening = (None, announced)"
    by (simp add: announced_def prod_eq_iff)
  have h2: "equal studio_ptr (studio_ptr\<lparr>ttl := 0\<rparr>)"
    by (simp add: equal_def type_def)
  have h3: "\<lparr>svc = studio_ptr, cache_timeout_id = Some 0\<rparr> \<in> set (all_entries announced)"
    by (simp add: announced_eq all_entries_def)
  have h4: "tocall announced (studio_ptr\<lparr>ttl := 0\<rparr>) = [7]"
    by (simp add: announced_eq tocall_def studio_ptr_def type_def PTR_def discovery_match_def
        startswith_def)
  from loopback_suppression [of studio_ptr listening announced "studio_ptr\<lparr>ttl := 0\<rparr>"
      announced "\<lparr>svc = studio_ptr, cache_timeout_id = Some 0\<rparr>"]
    h1 h2 h3 reachable_announced
  have "detected_service (studio_ptr\<lparr>ttl := 0\<rparr>) announced = (None, announced)"
    and "called (snd (detected_service (studio_ptr\<lparr>ttl := 0\<rparr>) announced)) = called announced"
    by simp_all
  then show ?thesis
    using h1 h2 h3 h4 reachable_announced by (simp add: announced_eq)
qed


subsection \<open>Names that are too long\<close>

lemma send_response_exn: "send_response s m = (x, m') \<Longrightarrow> x \<noteq> Some NameTooLong"
  by (auto simp: send_response_def Let_def split: if_splits)

lemma update_cache_exn: "update_cache s m = (x, m') \<Longrightarrow> x \<noteq> Some NameTooLong"
  by (auto simp: update_cache_def Let_def split: option.splits prod.splits if_splits)

lemma detected_service_exn: "detected_service s m = (x, m') \<Longrightarrow> x \<noteq> Some NameTooLong"
  by (auto simp: detected_service_def Let_def split: if_splits dest: update_cache_exn)

lemma deliver_cached_exn: "deliver_cached k is m = (x, m') \<Longrightarrow> x \<noteq> Some NameTooLong"
proof (induction "is" arbitrary: m)
  case Nil
  then show ?case by simp
next
  case (Cons i "is")
  then show ?case
    by (auto simp: Let_def split: if_splits option.splits prod.splits dest: detected_service_exn)
qed

lemma query_name_exn: "query_name n t m = (x, m') \<Longrightarrow> x \<noteq> Some NameTooLong"
  by (auto simp: query_name_def split: option.splits if_splits dest: deliver_cached_exn)

lemma announce_exn:
  "length (label s) \<le> 100 \<Longrightarrow> announce s b m = (x, m') \<Longrightarrow> x \<noteq> Some NameTooLong"
  by (auto simp: announce_def Let_def split: prod.splits option.splits if_splits
      dest: send_response_exn)

text \<open>
  C8.  \<open>announce\<close>, \<open>on_discovery\<close> and the overload of \<open>query\<close> that takes a callback
  test the length first: a label or name longer than 100 bytes gives the length exception
  and the engine is exactly as before, no registry, timer or sent packet has changed; a name
  of at most 100 bytes is not rejected for its length.  The overload \<^verbatim>\<open>query(name, type)\<close>
  without a callback (\<open>query_name\<close>) has no such test and never throws the length
  exception: when the cache has no bucket for the name, it sends the question for a name of
  up to 102 bytes, which is what fits its buffer of 120 bytes, and for a longer name the
  write crosses the end of that buffer.
\<close>

theorem name_too_long:
  "(length (label s) > 100 \<longrightarrow> announce s b m = (Some NameTooLong, m))
   \<and> (length n > 100 \<longrightarrow> query n t f m = (Some NameTooLong, m))
   \<and> (length n > 100 \<longrightarrow> on_discovery n t f m = (Some NameTooLong, m))
   \<and> (length (label s) \<le> 100 \<longrightarrow> fst (announce s b m) \<noteq> Some NameTooLong)
   \<and> (length n \<le> 100 \<longrightarrow> fst (query n t f m) \<noteq> Some NameTooLong)
   \<and> (length n \<le> 100 \<longrightarrow> fst (on_discovery n t f m) = None)
   \<and> fst (query_name n t m) \<noteq> Some NameTooLong
   \<and> (find_key (t, n) (cache m) = None \<and> length n \<le> 102
        \<longrightarrow> query_name n t m
            = (None, m\<lparr>sent := sent m @ [[0, 0, 0, 0, 0, 1, 0, 0, 0, 0, 0, 0]
                                         @ write_label n @ write_uint16 t @ [0, 1]]\<rparr>))
   \<and> (find_key (t, n) (cache m) = None \<and> length n > 102
        \<longrightarrow> query_name n t m = (Some BufferFault, m))"
proof -
  have "length (label s) \<le> 100 \<Longrightarrow> fst (announce s b m) \<noteq> Some NameTooLong"
    using announce_exn [of s b m] by (cases "announce s b m") simp
  moreover have "length n \<le> 100 \<Longrightarrow> fst (query n t f m) \<noteq> Some NameTooLong"
    using query_name_exn [of n t] by (cases "query n t f m") (simp add: query_def)
  moreover have "fst (query_name n t m) \<noteq> Some NameTooLong"
    using query_name_exn [of n t m] by (cases "query_name n t m") simp
  moreover have "find_key (t, n) (cache m) = None \<and> length n \<le> 102
        \<longrightarrow> query_name n t m
            = (None, m\<lparr>sent := sent m @ [[0, 0, 0, 0, 0, 1, 0, 0, 0, 0, 0, 0]
                                         @ write_label n @ write_uint16 t @ [0, 1]]\<rparr>)"
    by (simp add: query_name_def length_query_packet broadcast_def)
      (simp add: query_packet_def query_header_def write_uint16_def)
  moreover have "find_key (t, n) (cache m) = None \<and> length n > 102
        \<longrightarrow> query_name n t m = (Some BufferFault, m)"
    by (simp add: query_name_def length_query_packet)
  ultimately show ?thesis
    by (simp add: announce_def query_def on_discovery_def)
qed

theorem name_too_long_witness:
  "length (label \<lparr>label = replicate 101 (CHR ''a''), ttl = 60, payload = service_ptr ''x.local''\<rparr>) > 100
   \<and> announce \<lparr>label = replicate 101 (CHR ''a''), ttl = 60, payload = service_ptr ''x.local''\<rparr> True (mdns_new 1 [] [])
       = (Some NameTooLong, mdns_new 1 [] [])
   \<and> query (replicate 101 (CHR ''a'')) PTR 7 (mdns_new 1 [] []) = (Some NameTooLong, mdns_new 1 [] [])
   \<and> on_discovery (replicate 101 (CHR ''a'')) PTR 7 (mdns_new 1 [] []) = (Some NameTooLong, mdns_new 1 [] [])
   \<and> length (label \<lparr>label = replicate 100 (CHR ''a''), ttl = 60, payload = service_ptr ''x.local''\<rparr>) \<le> 100
   \<and> fst (announce \<lparr>label = replicate 100 (CHR ''a''), ttl = 60, payload = service_ptr ''x.local''\<rparr> True (mdns_new 1 [] [])) \<noteq> Some NameTooLong
   \<and> fst (query (replicate 100 (CHR ''a'')) PTR 7 (mdns_new 1 [] [])) \<noteq> Some NameTooLong
   \<and> fst (on_discovery (replicate 100 (CHR ''a'')) PTR 7 (mdns_new 1 [] [])) = None
   \<and> find_key (PTR, replicate 101 (CHR ''a'')) (cache (mdns_new 1 [] [])) = None
   \<and> length (replicate 101 (CHR ''a'')) \<le> 102
   \<and> query_name (replicate 101 (CHR ''a'')) PTR (mdns_new 1 [] [])
       = (None, (mdns_new 1 [] [])\<lparr>sent := [[0, 0, 0, 0, 0, 1, 0, 0, 0, 0, 0, 0]
                                            @ write_label (replicate 101 (CHR ''a''))
                                            @ [0, 12, 0, 1]]\<rparr>)
   \<and> length ([0, 0, 0, 0, 0, 1, 0, 0, 0, 0, 0, 0 :: nat]
               @ write_label (replicate 101 (CHR ''a'')) @ [0, 12, 0, 1]) = 119
   \<and> find_key (PTR, replicate 103 (CHR ''a'')) (cache (mdns_new 1 [] [])) = None
   \<and> length (replicate 103 (CHR ''a'')) > 102
   \<and> query_name (replicate 103 (CHR ''a'')) PTR (mdns_new 1 [] [])
       = (Some BufferFault, mdns_new 1 [] [])"
proof -
  let ?s1 = "\<lparr>label = replicate 101 (CHR ''a''), ttl = 60, payload = service_ptr ''x.local''\<rparr>"
  let ?s0 = "\<lparr>label = replicate 100 (CHR ''a''), ttl = 60, payload = service_ptr ''x.local''\<rparr>"
  note t1 = name_too_long [of ?s1 True "mdns_new 1 [] []" "replicate 101 (CHR ''a'')" PTR 7]
  note t0 = name_too_long [of ?s0 True "mdns_new 1 [] []" "replicate 100 (CHR ''a'')" PTR 7]
  note t3 = name_too_long [of ?s1 True "mdns_new 1 [] []" "replicate 103 (CHR ''a'')" PTR 7]
  have l1: "length (label ?s1) > 100" "length (replicate 101 (CHR ''a'')) > 100"
    "length (replicate 101 (CHR ''a'')) \<le> 102"
    by simp_all
  have l0: "length (label ?s0) \<le> 100" "length (replicate 100 (CHR ''a'')) \<le> 100"
    by simp_all
  have l3: "length (replicate 103 (CHR ''a'')) > 102"
    by simp
  have f: "find_key (PTR, n) (cache (mdns_new 1 [] [])) = None" for n
    by (simp add: mdns_new_def find_key_def)
  from t1 l1 have a1: "announce ?s1 True (mdns_new 1 [] []) = (Some NameTooLong, mdns_new 1 [] [])"
    and q1: "query (replicate 101 (CHR ''a'')) PTR 7 (mdns_new 1 [] []) = (Some NameTooLong, mdns_new 1 [] [])"
    and d1: "on_discovery (replicate 101 (CHR ''a'')) PTR 7 (mdns_new 1 [] []) = (Some NameTooLong, mdns_new 1 [] [])"
    by blast+
  from t0 l0 have a0: "fst (announce ?s0 True (mdns_new 1 [] [])) \<noteq> Some NameTooLong"
    and q0: "fst (query (replicate 100 (CHR ''a'')) PTR 7 (mdns_new 1 [] [])) \<noteq> Some NameTooLong"
    and d0: "fst (on_discovery (replicate 100 (CHR ''a'')) PTR 7 (mdns_new 1 [] [])) = None"
    by blast+
  from t1 l1 f [of "replicate 101 (CHR ''a'')"]
  have "query_name (replicate 101 (CHR ''a'')) PTR (mdns_new 1 [] [])
      = (None, (mdns_new 1 [] [])\<lparr>sent := sent (mdns_new 1 [] [])
            @ [[0, 0, 0, 0, 0, 1, 0, 0, 0, 0, 0, 0] @ write_label (replicate 101 (CHR ''a''))
               @ write_uint16 PTR @ [0, 1]]\<rparr>)"
    by blast
  moreover have "sent (mdns_new 1 [] []) = []" "write_uint16 PTR @ [0, 1] = [0, 12, 0, 1]"
    by (simp_all add: mdns_new_def write_uint16_def PTR_def)
  ultimately have n1: "query_name (replicate 101 (CHR ''a'')) PTR (mdns_new 1 [] [])
       = (None, (mdns_new 1 [] [])\<lparr>sent := [[0, 0, 0, 0, 0, 1, 0, 0, 0, 0, 0, 0]
                                            @ write_label (replicate 101 (CHR ''a''))
                                            @ [0, 12, 0, 1]]\<rparr>)"
    by (simp only: append_Nil)
  have p: "length ([0, 0, 0, 0, 0, 1, 0, 0, 0, 0, 0, 0 :: nat]
               @ write_label (replicate 101 (CHR ''a'')) @ [0, 12, 0, 1]) = 119"
    by (simp add: length_write_label)
  from t3 l3 f [of "replicate 103 (CHR ''a'')"]
  have n3: "query_name (replicate 103 (CHR ''a'')) PTR (mdns_new 1 [] [])
       = (Some BufferFault, mdns_new 1 [] [])"
    by blast
  show ?thesis
    using l1 l0 l3 a1 q1 d1 a0 q0 d0 n1 p n3 f [of "replicate 101 (CHR ''a'')"]
      f [of "replicate 103 (CHR ''a'')"]
    by blast
qed


subsection \<open>The cache in reachable engines\<close>

text \<open>
  Every operation keeps the shape of the cache.  Only \<open>update_cache\<close> writes the cache: it
  appends a record that no cached record of the bucket equals, refreshes the ttl of the
  records that equal the detected one, or erases at the iterator that \<^verbatim>\<open>std::remove_if\<close>
  returns.
\<close>

lemma cached_cache: "cache m' = cache m \<Longrightarrow> cached m' = cached m"
  by (simp add: cached_def)

lemma cached_bucketD:
  "cached m \<Longrightarrow> cached_bucket k (at_key k (cache m))"
proof (cases "map_of (cache m) k")
  case None
  then show ?thesis by (simp add: at_key_def cached_bucket_def)
next
  case (Some v)
  assume "cached m"
  moreover from Some have "(k, v) \<in> set (cache m)" by (rule map_of_SomeD)
  ultimately show ?thesis
    using Some by (auto simp: cached_def list_all_iff at_key_def)
qed

lemma cached_set_key:
  assumes "cached m" and "cached_bucket k v"
  shows "cached (m\<lparr>cache := set_key k v (cache m)\<rparr>)"
proof -
  have "\<forall>d \<in> set (set_key k v (cache m)). cached_bucket (fst d) (snd d)"
    using assms set_set_key [of k v "cache m"] by (auto simp: cached_def list_all_iff)
  with assms(1) show ?thesis
    by (simp add: cached_def sorted_set_key list_all_iff)
qed


text \<open>
  \<^verbatim>\<open>std::remove_if\<close> on a bucket in which exactly one record satisfies the predicate moves
  the later records one slot down and leaves one slot at the end, which \<^verbatim>\<open>erase\<close> removes.
\<close>

lemma find_if_takeWhile:
  "list_all (\<lambda>d. d \<noteq> None) xs
   \<Longrightarrow> find_if p xs = Some (length (takeWhile (\<lambda>d. \<not> p (the d)) xs))"
  by (induction p xs rule: find_if.induct) auto

lemma remove_if_moves_shift:
  "list_all (\<lambda>d. case d of None \<Rightarrow> False | Some r \<Rightarrow> \<not> p r) zs
   \<Longrightarrow> remove_if_moves p [Suc (length ys) ..< Suc (length ys) + length zs] (ys @ h # zs) (length ys)
       = Some (ys @ zs @ [if zs = [] then h else None], length ys + length zs)"
proof (induction zs arbitrary: ys h)
  case Nil
  then show ?case by simp
next
  case (Cons b zs)
  then obtain r where b: "b = Some r" and r: "\<not> p r"
    and zs: "list_all (\<lambda>d. case d of None \<Rightarrow> False | Some r \<Rightarrow> \<not> p r) zs"
    by (cases b) auto
  let ?n = "length ys"
  have "[Suc ?n ..< Suc ?n + length (b # zs)]
      = Suc ?n # [Suc (Suc ?n) ..< Suc ?n + length (b # zs)]"
    by (rule upt_conv_Cons) simp
  then have idx: "[Suc ?n ..< Suc ?n + length (b # zs)]
      = Suc ?n # [Suc (Suc ?n) ..< Suc (Suc ?n) + length zs]"
    by (simp del: upt_Suc)
  have upd: "(ys @ h # b # zs)[?n := Some r, Suc ?n := None] = (ys @ [Some r]) @ None # zs"
    by (simp add: list_update_append)
  have nth: "(ys @ h # b # zs) ! Suc ?n = Some r"
    by (simp add: nth_append b)
  have step: "remove_if_moves p (Suc ?n # js) (ys @ h # b # zs) ?n
      = remove_if_moves p js ((ys @ [Some r]) @ None # zs) (Suc ?n)" for js
    by (simp only: remove_if_moves.simps nth option.case r if_False upd)
  have ih: "remove_if_moves p [Suc (Suc ?n) ..< Suc (Suc ?n) + length zs]
        ((ys @ [Some r]) @ None # zs) (Suc ?n)
      = Some ((ys @ [Some r]) @ zs @ [None], Suc ?n + length zs)"
    using Cons.IH [OF zs, of "ys @ [Some r]" None] by (simp del: upt_Suc)
  show ?case
    unfolding idx step ih by (simp add: b)
qed

lemma cached_bucket_erase:
  assumes "cached_bucket k xs"
    and "remove_if (\<lambda>d. equal d s) xs = Some (moved, it)"
    and "erase_at it moved = Some erased"
  shows "cached_bucket k erased"
proof -
  let ?p = "\<lambda>d. equal d s"
  let ?i = "length (takeWhile (\<lambda>d. \<not> ?p (the d)) xs)"
  from assms(1) have some: "list_all (\<lambda>d. d \<noteq> None) xs"
    by (auto simp: cached_bucket_def list_all_iff split: option.splits)
  then have f: "find_if ?p xs = Some ?i"
    by (rule find_if_takeWhile)
  show ?thesis
  proof (cases "?i < length xs")
    case False
    with f assms(2) have "moved = xs" "it = length xs"
      by (auto simp: remove_if_def)
    with assms(3) show ?thesis
      by (simp add: erase_at_def)
  next
    case True
    define ys where "ys = take ?i xs"
    define zs where "zs = drop (Suc ?i) xs"
    have xs: "xs = ys @ xs ! ?i # zs"
      unfolding ys_def zs_def by (rule id_take_nth_drop [OF True])
    have lA: "length ys = ?i"
      unfolding ys_def using True by simp
    have lB: "Suc ?i + length zs = length xs"
      unfolding zs_def using True by simp
    have h: "?p (the (xs ! ?i))"
      using nth_length_takeWhile [OF True] by simp
    from some True obtain r0 where r0: "xs ! ?i = Some r0"
      by (auto simp: list_all_length)
    from assms(1) have d: "distinct (map (map_option payload) (ys @ Some r0 # zs))"
      unfolding cached_bucket_def using xs r0 by metis
    have zs: "list_all (\<lambda>d. case d of None \<Rightarrow> False | Some r \<Rightarrow> \<not> ?p r) zs"
      unfolding list_all_iff
    proof
      fix e assume e: "e \<in> set zs"
      then have "e \<in> set xs" using xs by (metis in_set_conv_decomp list.set_intros(2) set_append Un_iff)
      with some obtain r where r: "e = Some r"
        by (auto simp: list_all_iff)
      have "\<not> equal r s"
      proof
        assume "equal r s"
        with h r0 have "payload r = payload r0"
          by (simp add: equal_def)
        with d e r show False
          by (force simp: image_iff)
      qed
      with r show "case e of None \<Rightarrow> False | Some r \<Rightarrow> \<not> ?p r"
        by simp
    qed
    have "remove_if ?p xs = remove_if_moves ?p [Suc ?i ..< length xs] xs ?i"
      using f True by (simp add: remove_if_def)
    also have "\<dots> = remove_if_moves ?p [Suc (length ys) ..< Suc (length ys) + length zs]
                       (ys @ xs ! ?i # zs) (length ys)"
      using xs lA lB by simp
    also have "\<dots> = Some (ys @ zs @ [if zs = [] then xs ! ?i else None], length ys + length zs)"
      by (rule remove_if_moves_shift [OF zs])
    finally have "moved = ys @ zs @ [if zs = [] then xs ! ?i else None]" "it = length ys + length zs"
      using assms(2) by simp_all
    with assms(3) have e: "erased = ys @ zs"
      by (simp add: erase_at_def)
    from assms(1) have "cached_bucket k (ys @ xs ! ?i # zs)"
      using xs by simp
    then show ?thesis
      unfolding e by (simp add: cached_bucket_def)
  qed
qed

lemma refresh_payload: "map_option payload (refresh s d) = map_option payload d"
  by (simp add: refresh_def split: option.splits)

lemma cached_bucket_refresh:
  assumes "cached_bucket k xs" and "0 < ttl s"
  shows "cached_bucket k (map (refresh s) xs)"
proof -
  have c: "map_option payload \<circ> refresh s = map_option payload"
    by (rule ext) (simp add: refresh_payload)
  from assms(1) have "distinct (map (map_option payload) (map (refresh s) xs))"
    by (simp add: cached_bucket_def c)
  moreover have "list_all (\<lambda>e. case e of None \<Rightarrow> False
                                | Some r \<Rightarrow> k = (type r, label r) \<and> 0 < ttl r) (map (refresh s) xs)"
    using assms
    by (auto simp: cached_bucket_def list_all_iff refresh_def type_def split: option.splits)
  ultimately show ?thesis
    by (simp only: cached_bucket_def)
qed

lemma cached_bucket_append:
  assumes "cached_bucket (type s, label s) xs" and "0 < ttl s"
    and "\<not> list_ex (at_cache s) xs"
  shows "cached_bucket (type s, label s) (xs @ [Some (clone s)])"
proof -
  have "Some (payload s) \<notin> set (map (map_option payload) xs)"
  proof
    assume "Some (payload s) \<in> set (map (map_option payload) xs)"
    then obtain e where e: "e \<in> set xs" "Some (payload s) = map_option payload e"
      by auto
    from e(2) obtain r where r: "e = Some r" "payload r = payload s"
      by (cases e) auto
    with assms(1) e have "type r = type s" "label r = label s"
      by (auto simp: cached_bucket_def list_all_iff)
    with r have "equal r s" by (simp add: equal_def)
    with assms(3) e r show False
      by (auto simp: list_ex_iff at_cache_def)
  qed
  with assms(1,2) show ?thesis
    by (simp add: cached_bucket_def clone_def type_def)
qed

lemma update_cache_cached: "cached m \<Longrightarrow> update_cache s m = (x, m') \<Longrightarrow> cached m'"
proof -
  assume c: "cached m" and u: "update_cache s m = (x, m')"
  let ?k = "(type s, label s)"
  note b = cached_bucketD [OF c, of ?k]
  show ?thesis
  proof (cases "ttl s = 0")
    case True
    show ?thesis
    proof (cases "at_key ?k (cache m) = []")
      case e: True
      with u True have "m' = m\<lparr>cache := set_key ?k [] (cache m)\<rparr>"
        by (simp add: update_cache_def touch_key_def)
      with c show ?thesis
        by (simp add: cached_set_key cached_bucket_def)
    next
      case False
      show ?thesis
      proof (cases "remove_if (\<lambda>d. equal d s) (at_key ?k (cache m))")
        case None
        with u True False c show ?thesis
          by (simp add: update_cache_def)
      next
        case (Some mi)
        obtain moved it where mi: "mi = (moved, it)" by (cases mi)
        show ?thesis
        proof (cases "erase_at it moved")
          case None
          with u True False Some mi c show ?thesis
            by (simp add: update_cache_def)
        next
          case (Some erased)
          with u True False \<open>remove_if (\<lambda>d. equal d s) (at_key ?k (cache m)) = Some mi\<close> mi
          have "m' = m\<lparr>cache := set_key ?k erased (cache m)\<rparr>"
            by (simp add: update_cache_def)
          moreover have "cached_bucket ?k erased"
            using b \<open>remove_if (\<lambda>d. equal d s) (at_key ?k (cache m)) = Some mi\<close> Some
            unfolding mi by (rule cached_bucket_erase)
          ultimately show ?thesis
            using c by (simp add: cached_set_key)
        qed
      qed
    qed
  next
    case False
    then have t: "0 < ttl s" by simp
    show ?thesis
    proof (cases "list_ex (\<lambda>d. d = None) (at_key ?k (cache m))")
      case True
      with u False c show ?thesis
        by (simp add: update_cache_def)
    next
      case n: False
      show ?thesis
      proof (cases "list_ex (at_cache s) (at_key ?k (cache m))")
        case True
        with u False n have "m' = m\<lparr>cache := set_key ?k (map (refresh s) (at_key ?k (cache m))) (cache m)\<rparr>"
          by (simp add: update_cache_def Let_def)
        with c cached_bucket_refresh [OF b t] show ?thesis
          by (simp add: cached_set_key)
      next
        case False
        with u \<open>ttl s \<noteq> 0\<close> n
        have "m' = m\<lparr>cache := set_key ?k (at_key ?k (cache m) @ [Some (clone s)]) (cache m)\<rparr>"
          by (simp add: update_cache_def Let_def)
        with c cached_bucket_append [OF b t False] show ?thesis
          by (simp add: cached_set_key)
      qed
    qed
  qed
qed


lemma detected_service_cached: "cached m \<Longrightarrow> detected_service s m = (x, m') \<Longrightarrow> cached m'"
proof -
  assume c: "cached m" and d: "detected_service s m = (x, m')"
  show ?thesis
  proof (cases "own_record m s")
    case True
    with c d show ?thesis by (simp add: detected_service_def)
  next
    case False
    let ?m3 = "(call_all (at_key (type s, label s) (query_map (call_all (tocall m s) s m))) s
                  (call_all (tocall m s) s m))
               \<lparr>query_map := erase_key (type s, label s)
                  (query_map (call_all (at_key (type s, label s) (query_map (call_all (tocall m s) s m))) s
                      (call_all (tocall m s) s m)))\<rparr>"
    from False d have "update_cache s ?m3 = (x, m')"
      by (simp add: detected_service_def Let_def)
    moreover from c have "cached ?m3"
      by (simp add: cached_def call_all_def)
    ultimately show ?thesis
      by (rule update_cache_cached [rotated])
  qed
qed

lemma send_response_cached: "cached m \<Longrightarrow> send_response s m = (x, m') \<Longrightarrow> cached m'"
  by (auto simp: send_response_def broadcast_def cached_def Let_def split: if_splits)

lemma send_all_cached: "cached m \<Longrightarrow> send_all rs m = (x, m') \<Longrightarrow> cached m'"
proof (induction rs arbitrary: m)
  case Nil
  then show ?case by simp
next
  case (Cons r rs)
  then show ?case
    by (auto split: prod.splits option.splits dest: send_response_cached)
qed

lemma answer_if_known_cached: "cached m \<Longrightarrow> answer_if_known t l m = (x, m') \<Longrightarrow> cached m'"
  by (auto simp: answer_if_known_def split: prod.splits option.splits dest: send_all_cached)

lemma deliver_cached_cached: "cached m \<Longrightarrow> deliver_cached k is m = (x, m') \<Longrightarrow> cached m'"
proof (induction "is" arbitrary: m)
  case Nil
  then show ?case by simp
next
  case (Cons i "is")
  then show ?case
    by (auto simp: Let_def split: if_splits option.splits prod.splits
        dest: detected_service_cached)
qed

lemma query_name_cached: "cached m \<Longrightarrow> query_name n t m = (x, m') \<Longrightarrow> cached m'"
  by (auto simp: query_name_def broadcast_def split: option.splits if_splits
      dest: deliver_cached_cached) (simp add: cached_def)

lemma query_cached: "cached m \<Longrightarrow> query n t f m = (x, m') \<Longrightarrow> cached m'"
proof -
  assume c: "cached m" and q: "query n t f m = (x, m')"
  show ?thesis
  proof (cases "length n > 100")
    case True
    with c q show ?thesis by (simp add: query_def)
  next
    case False
    let ?m1 = "m\<lparr>query_map := set_key (t, n) (at_key (t, n) (query_map m) @ [f]) (query_map m)\<rparr>"
    from False q have "query_name n t ?m1 = (x, m')"
      by (simp add: query_def)
    moreover from c have "cached ?m1"
      by (simp add: cached_def)
    ultimately show ?thesis
      by (rule query_name_cached [rotated])
  qed
qed

lemma read_question_cached: "cached m \<Longrightarrow> read_question buf pos m = (x, m') \<Longrightarrow> cached m'"
  by (auto simp: read_question_def split: option.splits prod.splits sum.splits
      dest: answer_if_known_cached)

lemma read_answer_cached: "cached m \<Longrightarrow> read_answer buf pos m = (x, m') \<Longrightarrow> cached m'"
  by (auto simp: read_answer_def split: option.splits prod.splits sum.splits if_splits
      dest: detected_service_cached)

lemma read_questions_cached: "cached m \<Longrightarrow> read_questions n buf pos m = (x, m') \<Longrightarrow> cached m'"
proof (induction n arbitrary: pos m)
  case 0
  then show ?case by simp
next
  case (Suc n)
  then show ?case
    by (auto split: prod.splits sum.splits if_splits dest: read_question_cached)
qed

lemma read_answers_cached: "cached m \<Longrightarrow> read_answers n buf pos m = (x, m') \<Longrightarrow> cached m'"
proof (induction n arbitrary: pos m)
  case 0
  then show ?case by simp
next
  case (Suc n)
  then show ?case
    by (auto split: prod.splits sum.splits if_splits dest: read_answer_cached)
qed

lemma parse_packet_cached: "cached m \<Longrightarrow> parse_packet buf m = (x, m') \<Longrightarrow> cached m'"
  by (auto simp: parse_packet_def split: option.splits prod.splits sum.splits if_splits
      dest: read_questions_cached read_answers_cached)

lemma mdns_ready_cached: "cached m \<Longrightarrow> mdns_ready sender bytes m = (x, m') \<Longrightarrow> cached m'"
proof -
  assume c: "cached m" and r: "mdns_ready sender bytes m = (x, m')"
  let ?m1 = "m\<lparr>ip4 := route_get_ip_for_route (routes m) sender\<rparr>"
  from c have c1: "cached ?m1"
    by (simp add: cached_def)
  from r have "m' = ?m1 \<or> parse_packet (take 1500 bytes) ?m1 = (x, m')"
    by (auto simp: mdns_ready_def Let_def split: if_splits)
  with c1 show ?thesis
    by (auto dest: parse_packet_cached)
qed

lemma announce_cache: "announce srv b m = (x, m') \<Longrightarrow> cache m' = cache m"
  by (auto simp: announce_def Let_def send_response_def broadcast_def reannounce_later_def
      add_timer_event_def split: if_splits)

lemma unannounce_cache: "unannounce srv m = (x, m') \<Longrightarrow> cache m' = cache m"
  by (auto simp: unannounce_def Let_def send_response_def broadcast_def split: if_splits)

lemma timer_fired_cache: "timer_fired i m = (x, m') \<Longrightarrow> cache m' = cache m"
  by (auto simp: timer_fired_def Let_def send_response_def broadcast_def reannounce_later_def
      add_timer_event_def split: if_splits option.splits)

lemma reachable_cached: "reachable m \<Longrightarrow> cached m"
proof (induction rule: reachable.induct)
  case (new default_ip addrs static_routes)
  show ?case
    by (simp add: cached_def mdns_new_def split: prod.splits)
next
  case (on_discovery m service qt f x m')
  then show ?case
    by (auto simp: on_discovery_def cached_def split: if_splits)
next
  case (remove_discovery m service qt)
  then show ?case
    by (simp add: remove_discovery_def cached_def)
next
  case (query m service qt f x m')
  then show ?case
    by (blast intro: query_cached)
next
  case (query_name m service qt x m')
  then show ?case
    by (blast intro: query_name_cached)
next
  case (announce m srv b x m')
  then show ?case
    by (simp add: cached_cache [OF announce_cache])
next
  case (unannounce m srv x m')
  then show ?case
    by (simp add: cached_cache [OF unannounce_cache])
next
  case (timer m timer_id x m')
  then show ?case
    by (simp add: cached_cache [OF timer_fired_cache])
next
  case (datagram m sender bytes x m')
  then show ?case
    by (blast intro: mdns_ready_cached)
next
  case (other_engine m addrs)
  then show ?case
    by (simp add: cached_def)
qed

subsection \<open>Queries and the cache\<close>

lemma refresh_id:
  assumes "cached_bucket k bucket" and "Some r \<in> set bucket"
  shows "map (refresh r) bucket = bucket"
proof (rule map_idI)
  fix e assume e: "e \<in> set bucket"
  from assms(1) have inj: "inj_on (map_option payload) (set bucket)"
    by (simp add: cached_bucket_def distinct_map)
  from assms(1) e obtain x where x: "e = Some x"
    by (cases e) (auto simp: cached_bucket_def list_all_iff)
  show "refresh r e = e"
  proof (cases "equal x r")
    case True
    then have "map_option payload e = map_option payload (Some r)"
      by (simp add: x equal_def)
    with inj e assms(2) have "e = Some r"
      by (blast dest: inj_onD)
    with x show ?thesis
      by (simp add: refresh_def)
  next
    case False
    with x show ?thesis by (simp add: refresh_def)
  qed
qed

lemma detected_service_of_cached:
  assumes "cached m" and "find_key k (cache m) = Some bucket" and "Some r \<in> set bucket"
    and "\<not> own_record m r"
  shows "detected_service r m
         = (None, m\<lparr>query_map := erase_key k (query_map m),
                    called := called m @ map (\<lambda>f. (f, r)) (tocall m r @ at_key k (query_map m))\<rparr>)"
proof -
  from assms(2) have at: "at_key k (cache m) = bucket"
    by (rule find_key_at_key)
  from cached_bucketD [OF assms(1), of k] have b: "cached_bucket k bucket"
    by (simp add: at)
  with assms(3) have k: "k = (type r, label r)" and t: "0 < ttl r"
    by (auto simp: cached_bucket_def list_all_iff)
  from b have n: "\<not> list_ex (\<lambda>d. d = None) bucket"
    by (auto simp: cached_bucket_def list_all_iff list_ex_iff)
  from assms(3) have e: "list_ex (at_cache r) bucket"
    unfolding list_ex_iff by (rule bexI [rotated]) (simp add: at_cache_def equal_def)
  from assms(1) assms(2) have same: "set_key k bucket (cache m) = cache m"
    by (simp add: set_key_same cached_def find_key_def)
  have u: "update_cache r m3 = (None, m3)" if "cache m3 = cache m" for m3 :: mdns
    using that t n e
    by (simp add: update_cache_def Let_def k [symmetric] at refresh_id [OF b assms(3)] same)
  show ?thesis
    using assms(4)
    by (simp add: detected_service_def Let_def call_all_def k [symmetric] u)
qed

lemma deliver_cached_dispatch:
  assumes "cached m" and "find_key k (cache m) = Some bucket"
    and "\<forall>i \<in> set is. i < length bucket"
  shows "deliver_cached k is m
         = (None,
            m\<lparr>query_map :=
                (case filter (\<lambda>r. \<not> own_record m r) (map (\<lambda>i. the (bucket ! i)) is) of
                   [] \<Rightarrow> query_map m
                 | r # rs \<Rightarrow> erase_key k (query_map m)),
              called := called m @
                (case filter (\<lambda>r. \<not> own_record m r) (map (\<lambda>i. the (bucket ! i)) is) of
                   [] \<Rightarrow> []
                 | r # rs \<Rightarrow>
                     map (\<lambda>f. (f, r)) (tocall m r @ at_key k (query_map m))
                     @ concat (map (\<lambda>r'. map (\<lambda>f. (f, r')) (tocall m r')) rs))\<rparr>)"
  using assms
proof (induction "is" arbitrary: m)
  case Nil
  then show ?case by simp
next
  case (Cons i "is")
  from Cons.prems(2) have at: "at_key k (cache m) = bucket"
    by (rule find_key_at_key)
  from cached_bucketD [OF Cons.prems(1), of k] have b: "cached_bucket k bucket"
    by (simp add: at)
  from Cons.prems(3) have i: "i < length bucket" by simp
  with b obtain r where r: "bucket ! i = Some r"
    by (cases "bucket ! i") (auto simp: cached_bucket_def list_all_length)
  with i have mem: "Some r \<in> set bucket"
    by (metis nth_mem)
  show ?case
  proof (cases "own_record m r")
    case True
    then have "deliver_cached k (i # is) m = deliver_cached k is m"
      using i r by (simp add: at detected_service_own)
    also note Cons.IH [OF Cons.prems(1,2)]
    finally show ?thesis
      using Cons.prems(3) True r by simp
  next
    case False
    let ?m1 = "m\<lparr>query_map := erase_key k (query_map m),
                 called := called m @ map (\<lambda>f. (f, r)) (tocall m r @ at_key k (query_map m))\<rparr>"
    let ?news = "filter (\<lambda>r. \<not> own_record m r) (map (\<lambda>i. the (bucket ! i)) is)"
    have d: "detected_service r m = (None, ?m1)"
      using Cons.prems(1,2) mem False by (rule detected_service_of_cached)
    have c1: "cached ?m1"
      using Cons.prems(1) by (simp add: cached_def)
    have f1: "find_key k (cache ?m1) = Some bucket"
      using Cons.prems(2) by simp
    have p3: "\<forall>i \<in> set is. i < length bucket"
      using Cons.prems(3) by simp
    have own: "own_record ?m1 = own_record m"
      by (rule ext) (simp add: own_record_def)
    have tc: "tocall ?m1 = tocall m"
      by (rule ext) (simp add: tocall_def)
    have qm: "query_map ?m1 = erase_key k (query_map m)"
      by simp
    have "deliver_cached k (i # is) m = deliver_cached k is ?m1"
      using i r by (simp add: at d)
    also from Cons.IH [OF c1 f1 p3, unfolded own tc qm]
    have "\<dots> = (None,
            m\<lparr>query_map := erase_key k (query_map m),
              called := called m @ map (\<lambda>f. (f, r)) (tocall m r @ at_key k (query_map m))
                @ concat (map (\<lambda>r'. map (\<lambda>f. (f, r')) (tocall m r')) ?news)\<rparr>)"
      by (simp add: at_key_erase_key erase_key_idem split: list.splits)
    finally show ?thesis
      using False r by simp
  qed
qed

lemma deliver_cached_detect_all:
  assumes "cached m" and "find_key k (cache m) = Some bucket"
    and "\<forall>i \<in> set is. i < length bucket"
  shows "deliver_cached k is m = detect_all (map (\<lambda>i. bucket ! i) is) m"
  using assms
proof (induction "is" arbitrary: m)
  case Nil
  then show ?case by simp
next
  case (Cons i "is")
  from Cons.prems(2) have at: "at_key k (cache m) = bucket"
    by (rule find_key_at_key)
  from cached_bucketD [OF Cons.prems(1), of k] have b: "cached_bucket k bucket"
    by (simp add: at)
  from Cons.prems(3) have i: "i < length bucket" and p3: "\<forall>i \<in> set is. i < length bucket"
    by simp_all
  with b obtain r where r: "bucket ! i = Some r"
    by (cases "bucket ! i") (auto simp: cached_bucket_def list_all_length)
  with i have mem: "Some r \<in> set bucket"
    by (metis nth_mem)
  show ?case
  proof (cases "own_record m r")
    case True
    with Cons.IH [OF Cons.prems(1,2) p3] i r show ?thesis
      by (simp add: at detected_service_own)
  next
    case False
    let ?m1 = "m\<lparr>query_map := erase_key k (query_map m),
                 called := called m @ map (\<lambda>f. (f, r)) (tocall m r @ at_key k (query_map m))\<rparr>"
    have d: "detected_service r m = (None, ?m1)"
      using Cons.prems(1,2) mem False by (rule detected_service_of_cached)
    have c1: "cached ?m1"
      using Cons.prems(1) by (simp add: cached_def)
    have f1: "find_key k (cache ?m1) = Some bucket"
      using Cons.prems(2) by simp
    from Cons.IH [OF c1 f1 p3] i r show ?thesis
      by (simp add: at d)
  qed
qed

lemma nth_slots: "map (\<lambda>i. map Some rs ! i) [0 ..< length rs] = map Some rs"
  by (rule nth_equalityI) simp_all

lemma nth_records: "map (\<lambda>i. the (map Some rs ! i)) [0 ..< length rs] = rs"
  by (rule nth_equalityI) simp_all


text \<open>
  C7, as the code has it.  In an engine whose cache has the shape that \<open>update_cache\<close>
  keeps, which every reachable engine has (\<open>reachable_cached\<close>), and for a name of at most
  100 bytes.  When the cache holds the records \<open>rs\<close>, at least one, for \<open>(type, name)\<close>,
  \<open>query name type cb\<close> does, once \<open>cb\<close> is registered, what the engine does when it
  detects the records \<open>rs\<close> one after the other as the answers of a packet
  (\<open>detect_all\<close>).  It returns without sending a packet, and what it has called is, for the
  cached records in order that are not the engine's own announcements: for the first of them
  the discovery callbacks that match it, then the query callbacks that waited under
  \<open>(type, name)\<close>, then \<open>cb\<close>; for each later one the discovery callbacks that match it.
  The query callbacks of \<open>(type, name)\<close> are erased by the first such record; when every
  cached record is one of the engine's own announcements nothing is called and \<open>cb\<close> stays
  registered.  When the cache has no bucket for \<open>(type, name)\<close>, \<open>query\<close> sends exactly
  one packet: transaction id 0, one question, the name, the type and the class 1.
\<close>

theorem query_cache_short_circuit:
  assumes "length name \<le> 100" and "cached m"
  shows "(find_key (t, name) (cache m) = Some (map Some rs) \<and> rs \<noteq> []
            \<longrightarrow> query name t cb m
                = detect_all (map Some rs)
                    (m\<lparr>query_map := set_key (t, name) (at_key (t, name) (query_map m) @ [cb])
                                       (query_map m)\<rparr>)
              \<and> query name t cb m
                = (None,
                   m\<lparr>query_map :=
                       (case filter (\<lambda>r. \<not> own_record m r) rs of
                          [] \<Rightarrow> set_key (t, name) (at_key (t, name) (query_map m) @ [cb])
                                  (query_map m)
                        | r # news \<Rightarrow> erase_key (t, name) (query_map m)),
                     called := called m @
                       (case filter (\<lambda>r. \<not> own_record m r) rs of
                          [] \<Rightarrow> []
                        | r # news \<Rightarrow>
                            map (\<lambda>f. (f, r)) (tocall m r @ at_key (t, name) (query_map m) @ [cb])
                            @ concat (map (\<lambda>r'. map (\<lambda>f. (f, r')) (tocall m r')) news))\<rparr>))
         \<and> (find_key (t, name) (cache m) = None
            \<longrightarrow> query name t cb m
                  = (None, m\<lparr>query_map := set_key (t, name) (at_key (t, name) (query_map m) @ [cb])
                                              (query_map m),
                             sent := sent m @ [[0, 0, 0, 0, 0, 1, 0, 0, 0, 0, 0, 0]
                                               @ write_label name @ write_uint16 t @ [0, 1]]\<rparr>))"
proof (intro conjI impI)
  let ?k = "(t, name)"
  let ?m1 = "m\<lparr>query_map := set_key ?k (at_key ?k (query_map m) @ [cb]) (query_map m)\<rparr>"
  {
    assume a: "find_key ?k (cache m) = Some (map Some rs) \<and> rs \<noteq> []"
    have c1: "cached ?m1"
      using assms(2) by (simp add: cached_def)
    have f1: "find_key ?k (cache ?m1) = Some (map Some rs)"
      using a by simp
    have own: "own_record ?m1 = own_record m"
      by (rule ext) (simp add: own_record_def)
    have tc: "tocall ?m1 = tocall m"
      by (rule ext) (simp add: tocall_def)
    have q: "query name t cb m = deliver_cached ?k [0 ..< length (map Some rs)] ?m1"
      using a assms(1) by (simp add: query_def query_name_def)
    have "deliver_cached ?k [0 ..< length (map Some rs)] ?m1
        = detect_all (map (\<lambda>i. map Some rs ! i) [0 ..< length (map Some rs)]) ?m1"
      by (rule deliver_cached_detect_all [OF c1 f1]) simp
    then show "query name t cb m = detect_all (map Some rs) ?m1"
      unfolding q by (simp add: nth_slots)
    note q
    also from deliver_cached_dispatch [OF c1 f1, of "[0 ..< length (map Some rs)]", unfolded own tc]
    have "deliver_cached ?k [0 ..< length (map Some rs)] ?m1 = (None,
                   m\<lparr>query_map :=
                       (case filter (\<lambda>r. \<not> own_record m r) rs of
                          [] \<Rightarrow> set_key (t, name) (at_key (t, name) (query_map m) @ [cb])
                                  (query_map m)
                        | r # news \<Rightarrow> erase_key (t, name) (query_map m)),
                     called := called m @
                       (case filter (\<lambda>r. \<not> own_record m r) rs of
                          [] \<Rightarrow> []
                        | r # news \<Rightarrow>
                            map (\<lambda>f. (f, r)) (tocall m r @ at_key (t, name) (query_map m) @ [cb])
                            @ concat (map (\<lambda>r'. map (\<lambda>f. (f, r')) (tocall m r')) news))\<rparr>)"
      by (simp add: nth_records at_key_set_key erase_key_set_key split: list.splits)
    finally show "query name t cb m
                = (None,
                   m\<lparr>query_map :=
                       (case filter (\<lambda>r. \<not> own_record m r) rs of
                          [] \<Rightarrow> set_key (t, name) (at_key (t, name) (query_map m) @ [cb])
                                  (query_map m)
                        | r # news \<Rightarrow> erase_key (t, name) (query_map m)),
                     called := called m @
                       (case filter (\<lambda>r. \<not> own_record m r) rs of
                          [] \<Rightarrow> []
                        | r # news \<Rightarrow>
                            map (\<lambda>f. (f, r)) (tocall m r @ at_key (t, name) (query_map m) @ [cb])
                            @ concat (map (\<lambda>r'. map (\<lambda>f. (f, r')) (tocall m r')) news))\<rparr>)" .
  }
  {
    assume "find_key ?k (cache m) = None"
    with assms(1) show "query name t cb m
        = (None, m\<lparr>query_map := set_key (t, name) (at_key (t, name) (query_map m) @ [cb])
                                    (query_map m),
                   sent := sent m @ [[0, 0, 0, 0, 0, 1, 0, 0, 0, 0, 0, 0]
                                     @ write_label name @ write_uint16 t @ [0, 1]]\<rparr>)"
      by (simp add: query_def query_name_def length_query_packet broadcast_def)
        (simp add: query_packet_def query_header_def write_uint16_def)
  }
qed

lemma seen_eq:
  "seen = \<lparr>ip4 = 167772167, routes = [], announcements = [], discovery_map = [],
            query_map = [], cache = [((PTR, ''_apple-midi._udp.local''), [Some studio_ptr])],
            timers = [], next_timer_id = 0, sent = [], called = []\<rparr>"
  by (simp add: seen_def engine0_def studio_ptr_def mdns_new_def
      detected_service_def own_record_def tocall_def call_all_def update_cache_def at_key_def
      type_def PTR_def equal_def clone_def erase_key_def at_cache_def)

lemma listening_eq:
  "listening = \<lparr>ip4 = 167772167, routes = [], announcements = [],
                 discovery_map = [((PTR, ''_apple-midi._udp.local''), [7])], query_map = [],
                 cache = [], timers = [], next_timer_id = 0, sent = [], called = []\<rparr>"
  by (simp add: listening_def engine0_def mdns_new_def on_discovery_def at_key_def)

lemma detect_studio_listening:
  "detected_service studio_ptr listening
   = (None, listening\<lparr>cache := [((PTR, ''_apple-midi._udp.local''), [Some studio_ptr])],
                      called := [(7, studio_ptr)]\<rparr>)"
  by (simp add: listening_eq detected_service_def own_record_def tocall_def call_all_def
      update_cache_def at_key_def erase_key_def discovery_match_def startswith_def Let_def)
    (simp add: studio_ptr_def type_def PTR_def clone_def)

lemma seen_both_eq:
  "seen_both = \<lparr>ip4 = 167772167, routes = [], announcements = [],
                 discovery_map = [((PTR, ''_apple-midi._udp.local''), [7])], query_map = [],
                 cache = [((PTR, ''_apple-midi._udp.local''), [Some studio_ptr, Some other_ptr])],
                 timers = [], next_timer_id = 0, sent = [],
                 called = [(7, studio_ptr), (7, other_ptr)]\<rparr>"
proof -
  have t: "type other_ptr = PTR" "label other_ptr = ''_apple-midi._udp.local''"
    "type studio_ptr = PTR" "ttl other_ptr = 120" "\<not> equal studio_ptr other_ptr"
    "clone other_ptr = other_ptr"
    by (simp_all add: other_ptr_def studio_ptr_def type_def equal_def clone_def)
  have m: "discovery_match ''_apple-midi._udp.local'' ''_apple-midi._udp.local''"
    by (simp add: discovery_match_def startswith_def)
  have "detected_service other_ptr
          (listening\<lparr>cache := [((PTR, ''_apple-midi._udp.local''), [Some studio_ptr])],
                      called := [(7, studio_ptr)]\<rparr>)
      = (None, listening\<lparr>cache := [((PTR, ''_apple-midi._udp.local''),
                                      [Some studio_ptr, Some other_ptr])],
                        called := [(7, studio_ptr), (7, other_ptr)]\<rparr>)"
    by (simp add: listening_eq detected_service_def own_record_def tocall_def call_all_def
        update_cache_def at_key_def erase_key_def Let_def t m at_cache_def)
  then show ?thesis
    by (simp add: seen_both_def detect_studio_listening) (simp add: listening_eq)
qed

lemma seen_then_gone_eq:
  "seen_then_gone = \<lparr>ip4 = 167772167, routes = [], announcements = [], discovery_map = [],
                      query_map = [], cache = [((PTR, ''_apple-midi._udp.local''), [])],
                      timers = [], next_timer_id = 0, sent = [],
                      called = []\<rparr>"
proof -
  have t: "type (studio_ptr\<lparr>ttl := 0\<rparr>) = PTR"
    "label (studio_ptr\<lparr>ttl := 0\<rparr>) = ''_apple-midi._udp.local''"
    "equal studio_ptr (studio_ptr\<lparr>ttl := 0\<rparr>)"
    by (simp_all add: studio_ptr_def type_def equal_def)
  have r: "remove_if (\<lambda>d. equal d (studio_ptr\<lparr>ttl := 0\<rparr>)) [Some studio_ptr]
      = Some ([Some studio_ptr], 0)"
    by (simp add: remove_if_def t)
  show ?thesis
    by (simp add: seen_then_gone_def seen_eq detected_service_def own_record_def tocall_def
        call_all_def update_cache_def at_key_def erase_key_def Let_def t r erase_at_def)
qed

lemma seen_both_announced_eq:
  "seen_both_announced
   = \<lparr>ip4 = 167772167, routes = [],
      announcements = [((PTR, ''_apple-midi._udp.local''),
                        [\<lparr>svc = studio_ptr, cache_timeout_id = None\<rparr>])],
      discovery_map = [((PTR, ''_apple-midi._udp.local''), [7])], query_map = [],
      cache = [((PTR, ''_apple-midi._udp.local''), [Some studio_ptr, Some other_ptr])],
      timers = [], next_timer_id = 0, sent = [],
      called = [(7, studio_ptr), (7, other_ptr)]\<rparr>"
  by (simp add: seen_both_announced_def seen_both_eq announce_def at_key_def)
    (simp add: studio_ptr_def type_def PTR_def)

theorem query_cache_short_circuit_witness:
  "length ''_apple-midi._udp.local'' \<le> 100
   \<and> cached seen_both
   \<and> find_key (PTR, ''_apple-midi._udp.local'') (cache seen_both)
       = Some (map Some [studio_ptr, other_ptr])
   \<and> [studio_ptr, other_ptr] \<noteq> []
   \<and> query ''_apple-midi._udp.local'' PTR 9 seen_both
       = (None, seen_both\<lparr>called := [(7, studio_ptr), (7, other_ptr),
                                       (7, studio_ptr), (9, studio_ptr), (7, other_ptr)]\<rparr>)
   \<and> cached seen_both_announced
   \<and> find_key (PTR, ''_apple-midi._udp.local'') (cache seen_both_announced)
       = Some (map Some [studio_ptr, other_ptr])
   \<and> own_record seen_both_announced studio_ptr
   \<and> query ''_apple-midi._udp.local'' PTR 9 seen_both_announced
       = (None, seen_both_announced\<lparr>called := [(7, studio_ptr), (7, other_ptr),
                                                 (7, other_ptr), (9, other_ptr)]\<rparr>)
   \<and> cached engine0
   \<and> find_key (PTR, ''_apple-midi._udp.local'') (cache engine0) = None
   \<and> query ''_apple-midi._udp.local'' PTR 9 engine0
       = (None, engine0\<lparr>query_map := [((PTR, ''_apple-midi._udp.local''), [9])],
                       sent := [[0, 0, 0, 0, 0, 1, 0, 0, 0, 0, 0, 0,
                                 11, 95, 97, 112, 112, 108, 101, 45, 109, 105, 100, 105,
                                 4, 95, 117, 100, 112, 5, 108, 111, 99, 97, 108, 0,
                                 0, 12, 0, 1]]\<rparr>)"
proof -
  have h1: "length ''_apple-midi._udp.local'' \<le> 100"
    by simp
  have h2: "cached seen_both"
    by (simp add: cached_def cached_bucket_def seen_both_eq)
      (simp add: studio_ptr_def other_ptr_def type_def)
  have h3: "find_key (PTR, ''_apple-midi._udp.local'') (cache seen_both)
      = Some (map Some [studio_ptr, other_ptr])"
    by (simp add: seen_both_eq find_key_def)
  have h4: "[studio_ptr, other_ptr] \<noteq> []"
    by simp
  have h5: "cached engine0"
    by (simp add: cached_def engine0_def mdns_new_def)
  have h6: "find_key (PTR, ''_apple-midi._udp.local'') (cache engine0) = None"
    by (simp add: engine0_def mdns_new_def find_key_def)
  have h7: "cached seen_both_announced"
    by (simp add: cached_def cached_bucket_def seen_both_announced_eq)
      (simp add: studio_ptr_def other_ptr_def type_def)
  have h8: "find_key (PTR, ''_apple-midi._udp.local'') (cache seen_both_announced)
      = Some (map Some [studio_ptr, other_ptr])"
    by (simp add: seen_both_announced_eq find_key_def)
  have own: "filter (\<lambda>r. \<not> own_record seen_both r) [studio_ptr, other_ptr]
      = [studio_ptr, other_ptr]"
    by (simp add: seen_both_eq own_record_def)
  have tc: "tocall seen_both studio_ptr = [7]" "tocall seen_both other_ptr = [7]"
    by (simp_all add: seen_both_eq tocall_def discovery_match_def startswith_def)
      (simp_all add: studio_ptr_def other_ptr_def type_def)
  have o: "own_record seen_both_announced studio_ptr"
    "\<not> own_record seen_both_announced other_ptr"
    by (simp_all add: seen_both_announced_eq own_record_def equal_def)
      (simp_all add: studio_ptr_def other_ptr_def type_def PTR_def)
  then have own': "filter (\<lambda>r. \<not> own_record seen_both_announced r) [studio_ptr, other_ptr]
      = [other_ptr]"
    by simp
  have tc': "tocall seen_both_announced other_ptr = [7]"
    by (simp add: seen_both_announced_eq tocall_def discovery_match_def startswith_def)
      (simp add: other_ptr_def type_def)
  note t1 = query_cache_short_circuit [OF h1 h2, of PTR "[studio_ptr, other_ptr]" 9]
  note t2 = query_cache_short_circuit [OF h1 h5, of PTR "[studio_ptr, other_ptr]" 9]
  note t3 = query_cache_short_circuit [OF h1 h7, of PTR "[studio_ptr, other_ptr]" 9]
  from t1 h3 h4 have "query ''_apple-midi._udp.local'' PTR 9 seen_both
      = (None,
         seen_both\<lparr>query_map :=
             (case filter (\<lambda>r. \<not> own_record seen_both r) [studio_ptr, other_ptr] of
                [] \<Rightarrow> set_key (PTR, ''_apple-midi._udp.local'')
                        (at_key (PTR, ''_apple-midi._udp.local'') (query_map seen_both) @ [9])
                        (query_map seen_both)
              | r # news \<Rightarrow> erase_key (PTR, ''_apple-midi._udp.local'') (query_map seen_both)),
           called := called seen_both @
             (case filter (\<lambda>r. \<not> own_record seen_both r) [studio_ptr, other_ptr] of
                [] \<Rightarrow> []
              | r # news \<Rightarrow>
                  map (\<lambda>f. (f, r)) (tocall seen_both r
                      @ at_key (PTR, ''_apple-midi._udp.local'') (query_map seen_both) @ [9])
                  @ concat (map (\<lambda>r'. map (\<lambda>f. (f, r')) (tocall seen_both r')) news))\<rparr>)"
    by blast
  then have c1: "query ''_apple-midi._udp.local'' PTR 9 seen_both
       = (None, seen_both\<lparr>called := [(7, studio_ptr), (7, other_ptr),
                                       (7, studio_ptr), (9, studio_ptr), (7, other_ptr)]\<rparr>)"
    unfolding own by (simp add: tc) (simp add: seen_both_eq at_key_def erase_key_def)
  from t3 h8 h4 have "query ''_apple-midi._udp.local'' PTR 9 seen_both_announced
      = (None,
         seen_both_announced\<lparr>query_map :=
             (case filter (\<lambda>r. \<not> own_record seen_both_announced r) [studio_ptr, other_ptr] of
                [] \<Rightarrow> set_key (PTR, ''_apple-midi._udp.local'')
                        (at_key (PTR, ''_apple-midi._udp.local'') (query_map seen_both_announced) @ [9])
                        (query_map seen_both_announced)
              | r # news \<Rightarrow> erase_key (PTR, ''_apple-midi._udp.local'') (query_map seen_both_announced)),
           called := called seen_both_announced @
             (case filter (\<lambda>r. \<not> own_record seen_both_announced r) [studio_ptr, other_ptr] of
                [] \<Rightarrow> []
              | r # news \<Rightarrow>
                  map (\<lambda>f. (f, r)) (tocall seen_both_announced r
                      @ at_key (PTR, ''_apple-midi._udp.local'') (query_map seen_both_announced) @ [9])
                  @ concat (map (\<lambda>r'. map (\<lambda>f. (f, r')) (tocall seen_both_announced r')) news))\<rparr>)"
    by blast
  then have c2: "query ''_apple-midi._udp.local'' PTR 9 seen_both_announced
       = (None, seen_both_announced\<lparr>called := [(7, studio_ptr), (7, other_ptr),
                                                 (7, other_ptr), (9, other_ptr)]\<rparr>)"
    unfolding own' by (simp add: tc') (simp add: seen_both_announced_eq at_key_def erase_key_def)
  from t2 h6 have "query ''_apple-midi._udp.local'' PTR 9 engine0
      = (None, engine0\<lparr>query_map := set_key (PTR, ''_apple-midi._udp.local'')
                                        (at_key (PTR, ''_apple-midi._udp.local'') (query_map engine0) @ [9])
                                        (query_map engine0),
                       sent := sent engine0 @ [[0, 0, 0, 0, 0, 1, 0, 0, 0, 0, 0, 0]
                                 @ write_label ''_apple-midi._udp.local'' @ write_uint16 PTR @ [0, 1]]\<rparr>)"
    by blast
  then have c3: "query ''_apple-midi._udp.local'' PTR 9 engine0
       = (None, engine0\<lparr>query_map := [((PTR, ''_apple-midi._udp.local''), [9])],
                       sent := [[0, 0, 0, 0, 0, 1, 0, 0, 0, 0, 0, 0,
                                 11, 95, 97, 112, 112, 108, 101, 45, 109, 105, 100, 105,
                                 4, 95, 117, 100, 112, 5, 108, 111, 99, 97, 108, 0,
                                 0, 12, 0, 1]]\<rparr>)"
    by (simp add: engine0_def mdns_new_def at_key_def PTR_def write_label_def write_segment_def
        write_uint8_def write_uint16_def)
  show ?thesis
    using h1 h2 h3 h4 h5 h6 h7 h8 o(1) c1 c2 c3 by blast
qed

text \<open>
  A bucket that a goodbye has emptied is still found by \<^verbatim>\<open>cache.find\<close>: the query then
  sends no packet and calls nothing.
\<close>

lemma query_of_emptied_bucket:
  "find_key (PTR, ''_apple-midi._udp.local'') (cache seen_then_gone) = Some []
   \<and> query ''_apple-midi._udp.local'' PTR 9 seen_then_gone
       = (None, seen_then_gone\<lparr>query_map := [((PTR, ''_apple-midi._udp.local''), [9])]\<rparr>)"
  by (simp add: seen_then_gone_eq find_key_def query_def query_name_def at_key_def)

text \<open>
  C7, as the claim has it: the cache holds a record for \<open>(type, name)\<close>, and yet the query
  does not call \<open>cb\<close>, because the cached record equals an announced one.
\<close>

theorem query_cb_not_fired_counterexample:
  "find_key (PTR, ''_apple-midi._udp.local'') (cache seen_then_announced) = Some [Some studio_ptr]
   \<and> called (snd (query ''_apple-midi._udp.local'' PTR 7 seen_then_announced)) = []"
  by (simp add: seen_then_announced_eq find_key_def query_def query_name_def at_key_def
      detected_service_def own_record_def equal_def type_def studio_ptr_def PTR_def)


subsection \<open>Questions and answers of a packet\<close>

lemma known_untouched: "untouched m m' \<Longrightarrow> known m' q = known m q"
  by (simp add: known_def untouched_def)

lemma answer_if_known_result:
  "answer_if_known t l m = (Inr b, m') \<Longrightarrow> b = known m (t, l)"
  by (auto simp: answer_if_known_def known_def split: option.splits prod.splits)

lemma answer_if_known_unknown:
  "\<not> known m (t, l) \<Longrightarrow> answer_if_known t l m = (Inr False, m)"
  by (simp add: answer_if_known_def known_def)

lemma list_all_known_untouched:
  "untouched m m' \<Longrightarrow> list_all (known m') qs = list_all (known m) qs"
  by (simp add: list_all_iff known_untouched)

lemma takeWhile_known_untouched:
  "untouched m m' \<Longrightarrow> takeWhile (known m') qs = takeWhile (known m) qs"
  by (rule takeWhile_cong) (simp_all add: known_untouched)

lemma read_questions_known:
  "decode_questions n buf pos = Some (qs, pos') \<Longrightarrow> list_all (known m) qs
   \<Longrightarrow> read_questions n buf pos m
       = (case answer_all qs m of
            (Some x, m') \<Rightarrow> (Inl x, m')
          | (None, m') \<Rightarrow> (Inr (True, pos'), m'))"
proof (induction n arbitrary: pos m qs)
  case 0
  then show ?case by simp
next
  case (Suc n)
  from Suc.prems(1) obtain l t p qs' where
    f: "question_fields buf pos = Some (l, t, p)"
    and d: "decode_questions n buf p = Some (qs', pos')"
    and qs: "qs = (t, l) # qs'"
    by (auto split: option.splits prod.splits)
  obtain r m1 where a: "answer_if_known t l m = (r, m1)"
    by (cases "answer_if_known t l m")
  show ?case
  proof (cases r)
    case (Inl x)
    with f a qs show ?thesis
      by (simp add: read_question_def)
  next
    case (Inr b)
    with a have b: "b" and u: "untouched m m1"
      using Suc.prems(2) qs answer_if_known_result [of t l m b m1]
        answer_if_known_untouched [of t l m r m1]
      by simp_all
    from Suc.prems(2) qs u have "list_all (known m1) qs'"
      by (simp add: list_all_known_untouched)
    from Suc.IH [OF d this] f a Inr b qs show ?thesis
      by (simp add: read_question_def)
  qed
qed

lemma read_questions_unknown:
  "decode_questions n buf pos = Some (qs, pos') \<Longrightarrow> \<not> list_all (known m) qs
   \<Longrightarrow> \<exists>p. read_questions n buf pos m
       = (case answer_all (takeWhile (known m) qs) m of
            (Some x, m') \<Rightarrow> (Inl x, m')
          | (None, m') \<Rightarrow> (Inr (False, p), m'))"
proof (induction n arbitrary: pos m qs)
  case 0
  then show ?case by simp
next
  case (Suc n)
  from Suc.prems(1) obtain l t p qs' where
    f: "question_fields buf pos = Some (l, t, p)"
    and d: "decode_questions n buf p = Some (qs', pos')"
    and qs: "qs = (t, l) # qs'"
    by (auto split: option.splits prod.splits)
  show ?case
  proof (cases "known m (t, l)")
    case False
    with f qs show ?thesis
      by (simp add: read_question_def answer_if_known_unknown)
  next
    case True
    obtain r m1 where a: "answer_if_known t l m = (r, m1)"
      by (cases "answer_if_known t l m")
    show ?thesis
    proof (cases r)
      case (Inl x)
      with f a qs True show ?thesis
        by (simp add: read_question_def)
    next
      case (Inr b)
      with a True have b: "b" and u: "untouched m m1"
        using answer_if_known_result [of t l m b m1] answer_if_known_untouched [of t l m r m1]
        by simp_all
      from Suc.prems(2) qs True u have "\<not> list_all (known m1) qs'"
        by (simp add: list_all_known_untouched)
      from Suc.IH [OF d this] obtain p' where
        "read_questions n buf p m1
         = (case answer_all (takeWhile (known m1) qs') m1 of
              (Some x, m') \<Rightarrow> (Inl x, m')
            | (None, m') \<Rightarrow> (Inr (False, p'), m'))"
        by blast
      with f a Inr b qs True u show ?thesis
        by (intro exI [of _ p']) (simp add: read_question_def takeWhile_known_untouched)
    qed
  qed
qed

lemma read_answer_decoded:
  "decode_answer buf pos = Some (a, pos')
   \<Longrightarrow> read_answer buf pos m
       = (case detect_all [a] m of
            (Some x, m') \<Rightarrow> (Inl x, m')
          | (None, m') \<Rightarrow> (Inr (True, pos'), m'))"
  by (cases a)
    (auto simp: decode_answer_def read_answer_def split: option.splits prod.splits if_splits)

lemma read_answers_decoded:
  "decode_answers n buf pos = Some (as, pos')
   \<Longrightarrow> read_answers n buf pos m
       = (case detect_all as m of
            (Some x, m') \<Rightarrow> (Inl x, m')
          | (None, m') \<Rightarrow> (Inr (True, pos'), m'))"
proof (induction n arbitrary: pos m as)
  case 0
  then show ?case by simp
next
  case (Suc n)
  from Suc.prems obtain a p as' where
    f: "decode_answer buf pos = Some (a, p)"
    and d: "decode_answers n buf p = Some (as', pos')"
    and as: "as = a # as'"
    by (auto split: option.splits prod.splits)
  show ?case
  proof (cases a)
    case None
    with read_answer_decoded [OF f, of m] Suc.IH [OF d, of m] as show ?thesis
      by simp
  next
    case (Some s)
    obtain y m1 where ds: "detected_service s m = (y, m1)"
      by (cases "detected_service s m")
    with read_answer_decoded [OF f, of m] Suc.IH [OF d, of m1] as Some show ?thesis
      by (cases y) simp_all
  qed
qed

lemma answer_service_other:
  "answer_service buf l ty t p = Some None \<Longrightarrow> ty \<noteq> PTR \<and> ty \<noteq> SRV \<and> ty \<noteq> A"
  by (auto simp: answer_service_def split: if_splits Option.bind_splits prod.splits)

text \<open>
  C1, as the code has it.  For a packet whose header and questions decode: the engine
  answers the questions in order as long as each has an entry in the announcement registry.
  At the first question without an entry \<open>parse_packet\<close> returns: no later question is
  answered and no answer of the packet is processed.  When every question has an entry (and
  the answers decode), the answers are processed in order after the questions, and every
  decoded record is handed to \<open>detected_service\<close>; an answer decodes to no record only when
  its type is none of PTR, SRV and A.
\<close>

theorem parse_packet_sections:
  assumes "packet_header buf = Some (nq, na, pos)"
    and "decode_questions nq buf pos = Some (qs, pos1)"
  shows "(list_all (known m) qs \<and> decode_answers na buf pos1 = Some (as, pos2)
            \<longrightarrow> parse_packet buf m = and_then (answer_all qs) (detect_all as) m)
         \<and> (\<not> list_all (known m) qs
            \<longrightarrow> parse_packet buf m = answer_all (takeWhile (known m) qs) m)
         \<and> (answer_service buf l ty t p = Some None \<longrightarrow> ty \<noteq> PTR \<and> ty \<noteq> SRV \<and> ty \<noteq> A)"
proof -
  have 1: "parse_packet buf m = and_then (answer_all qs) (detect_all as) m"
    if a: "list_all (known m) qs \<and> decode_answers na buf pos1 = Some (as, pos2)"
  proof -
    obtain x m1 where q: "answer_all qs m = (x, m1)"
      by (cases "answer_all qs m")
    obtain y m2 where d: "detect_all as m1 = (y, m2)"
      by (cases "detect_all as m1")
    from a read_questions_known [OF assms(2), of m]
      read_answers_decoded [of na buf pos1 as pos2 m1] assms(1) q d
    show ?thesis
      by (cases x; cases y) (simp_all add: parse_packet_def and_then_def)
  qed
  have 2: "parse_packet buf m = answer_all (takeWhile (known m) qs) m"
    if "\<not> list_all (known m) qs"
    using read_questions_unknown [OF assms(2) that] assms(1)
    by (cases "answer_all (takeWhile (known m) qs) m")
      (auto simp: parse_packet_def split: option.splits)
  show ?thesis
    using 1 2 answer_service_other [of buf l ty t p] by blast
qed




subsection \<open>The example packet\<close>

lemma qa_bytes: "question_and_answer = [0, 0, 0, 0, 0, 1, 0, 1, 0, 0, 0, 0, 11, 95, 97, 112, 112, 108, 101, 45,
  109, 105, 100, 105, 4, 95, 117, 100, 112, 5, 108, 111, 99, 97, 108, 0, 0,
  12, 0, 1, 11, 95, 97, 112, 112, 108, 101, 45, 109, 105, 100, 105, 4, 95,
  117, 100, 112, 5, 108, 111, 99, 97, 108, 0, 0, 12, 0, 1, 0, 0, 0, 120, 0,
  26, 1, 89, 11, 95, 97, 112, 112, 108, 101, 45, 109, 105, 100, 105, 4, 95,
  117, 100, 112, 5, 108, 111, 99, 97, 108, 0]"
  by (simp add: question_and_answer_def write_label_def write_segment_def write_uint8_def)

lemma header_of_example: "packet_header question_and_answer = Some (1, 1, 12)"
  by (simp add: qa_bytes packet_header_def read_uint16_def)

lemma read_segments_numeral:
  "read_segments (numeral k) buf pos = read_segments (Suc (pred_numeral k)) buf pos"
  by (simp add: numeral_eq_Suc)

lemma char_of_nat_numeral: "char_of (numeral k :: nat) = Char (bit (numeral k :: nat) 0) (bit (numeral k :: nat) 1) (bit (numeral k :: nat) 2) (bit (numeral k :: nat) 3) (bit (numeral k :: nat) 4) (bit (numeral k :: nat) 5) (bit (numeral k :: nat) 6) (bit (numeral k :: nat) 7)"
  by (simp add: char_of_def bit_iff_odd_drop_bit drop_bit_eq_div)

lemma label_at_12:
  "read_label question_and_answer 12 = Some (''_apple-midi._udp.local'', 36)"
  unfolding qa_bytes read_label_def
  by (simp add: read_segments_numeral char_of_nat_numeral bit_0 Let_def)


lemma fields_of_example:
  "question_fields question_and_answer 12 = Some (''_apple-midi._udp.local'', PTR, 40)"
  by (simp add: question_fields_def label_at_12 c_str_def) (simp add: qa_bytes read_uint16_def PTR_def)

lemma questions_of_example:
  "decode_questions 1 question_and_answer 12 = Some ([(PTR, ''_apple-midi._udp.local'')], 40)"
  by (simp add: fields_of_example)

lemma label_at_40:
  "read_label question_and_answer 40 = Some (''_apple-midi._udp.local'', 64)"
  unfolding qa_bytes read_label_def
  by (simp add: read_segments_numeral char_of_nat_numeral bit_0 Let_def)

lemma label_at_74:
  "read_label question_and_answer 74 = Some (''Y._apple-midi._udp.local'', 100)"
  unfolding qa_bytes read_label_def
  by (simp add: read_segments_numeral char_of_nat_numeral bit_0 Let_def)

lemma answer_fields_of_example:
  "answer_fields question_and_answer 40 = Some (''_apple-midi._udp.local'', PTR, 120, 26, 74)"
  by (simp add: answer_fields_def label_at_40 c_str_def)
    (simp add: qa_bytes read_uint16_def read_uint32_def PTR_def)

lemma answers_of_example:
  "decode_answers 1 question_and_answer 40 = Some ([Some other_ptr], 100)"
  by (simp add: decode_answer_def answer_fields_of_example answer_service_def label_at_74
      c_str_def other_ptr_def assert_valid_position_def)
    (simp add: qa_bytes)

lemma detect_other_listening:
  "detected_service other_ptr listening
   = (None, listening\<lparr>cache := [((PTR, ''_apple-midi._udp.local''), [Some other_ptr])],
                      called := [(7, other_ptr)]\<rparr>)"
  by (simp add: listening_eq detected_service_def own_record_def tocall_def call_all_def
      update_cache_def at_key_def erase_key_def discovery_match_def startswith_def Let_def)
    (simp add: other_ptr_def type_def PTR_def clone_def)

theorem parse_packet_sections_witness:
  "packet_header question_and_answer = Some (1, 1, 12)
   \<and> decode_questions 1 question_and_answer 12 = Some ([(PTR, ''_apple-midi._udp.local'')], 40)
   \<and> decode_answers 1 question_and_answer 40 = Some ([Some other_ptr], 100)
   \<and> list_all (known announced) [(PTR, ''_apple-midi._udp.local'')]
   \<and> parse_packet question_and_answer announced
       = (None, announced\<lparr>sent := [response_packet 167772167 studio_ptr,
                                    response_packet 167772167 studio_ptr],
                          cache := [((PTR, ''_apple-midi._udp.local''), [Some other_ptr])],
                          called := [(7, other_ptr)]\<rparr>)
   \<and> \<not> list_all (known listening) [(PTR, ''_apple-midi._udp.local'')]
   \<and> parse_packet question_and_answer listening = (None, listening)"
proof -
  note h = header_of_example questions_of_example
  have k1: "list_all (known announced) [(PTR, ''_apple-midi._udp.local'')]"
    by (simp add: known_def find_key_def announced_eq)
  have k2: "\<not> list_all (known listening) [(PTR, ''_apple-midi._udp.local'')]"
    by (simp add: known_def find_key_def listening_eq)
  from parse_packet_sections [OF h, of announced "[Some other_ptr]" 100] k1 answers_of_example
  have "parse_packet question_and_answer announced
      = and_then (answer_all [(PTR, ''_apple-midi._udp.local'')]) (detect_all [Some other_ptr])
          announced"
    by blast
  also have "\<dots> = (None, announced\<lparr>sent := [response_packet 167772167 studio_ptr,
                                    response_packet 167772167 studio_ptr],
                          cache := [((PTR, ''_apple-midi._udp.local''), [Some other_ptr])],
                          called := [(7, other_ptr)]\<rparr>)"
  proof -
    have l: "length (response_packet 167772167 studio_ptr) \<le> 1500"
      by (simp add: response_packet_def rdata_def studio_ptr_def length_write_label
          response_header_def write_uint16_def write_uint32_def)
    then have s: "send_response studio_ptr announced
        = (None, announced\<lparr>sent := [response_packet 167772167 studio_ptr,
                                      response_packet 167772167 studio_ptr]\<rparr>)"
      by (simp add: send_response_def broadcast_def announced_eq Let_def)
    have a: "answer_all [(PTR, ''_apple-midi._udp.local'')] announced
        = (None, announced\<lparr>sent := [response_packet 167772167 studio_ptr,
                                      response_packet 167772167 studio_ptr]\<rparr>)"
    proof -
      have "find_key (PTR, ''_apple-midi._udp.local'') (announcements announced)
          = Some [\<lparr>svc = studio_ptr, cache_timeout_id = Some 0\<rparr>]"
        by (simp add: find_key_def announced_eq)
      then show ?thesis
        by (simp add: answer_if_known_def s)
    qed
    have d: "detected_service other_ptr
          (announced\<lparr>sent := [response_packet 167772167 studio_ptr,
                                response_packet 167772167 studio_ptr]\<rparr>)
        = (None, announced\<lparr>sent := [response_packet 167772167 studio_ptr,
                                    response_packet 167772167 studio_ptr],
                          cache := [((PTR, ''_apple-midi._udp.local''), [Some other_ptr])],
                          called := [(7, other_ptr)]\<rparr>)"
      by (simp add: announced_eq detected_service_def own_record_def tocall_def call_all_def
          update_cache_def at_key_def erase_key_def discovery_match_def startswith_def Let_def)
        (simp add: other_ptr_def studio_ptr_def equal_def type_def PTR_def clone_def)
    show ?thesis
      unfolding and_then_def a by (simp add: d)
  qed
  finally have c1: "parse_packet question_and_answer announced
      = (None, announced\<lparr>sent := [response_packet 167772167 studio_ptr,
                                    response_packet 167772167 studio_ptr],
                          cache := [((PTR, ''_apple-midi._udp.local''), [Some other_ptr])],
                          called := [(7, other_ptr)]\<rparr>)" .
  from parse_packet_sections [OF h, of listening "[Some other_ptr]" 100] k2
  have "parse_packet question_and_answer listening
      = answer_all (takeWhile (known listening) [(PTR, ''_apple-midi._udp.local'')]) listening"
    by blast
  with k2 have c2: "parse_packet question_and_answer listening = (None, listening)"
    by simp
  show ?thesis
    using h answers_of_example k1 k2 c1 c2 by blast
qed

text \<open>
  C1, as the claim has it: the packet holds a question that the registry has no entry for
  and an answer that decodes to \<open>other_ptr\<close>; handing that record to \<open>detected_service\<close>
  would call the discovery callback 7, but \<open>parse_packet\<close> returns at the question and
  leaves the engine as it was.
\<close>

theorem answer_after_unknown_question_counterexample:
  "packet_header question_and_answer = Some (1, 1, 12)
   \<and> decode_questions 1 question_and_answer 12 = Some ([(PTR, ''_apple-midi._udp.local'')], 40)
   \<and> decode_answers 1 question_and_answer 40 = Some ([Some other_ptr], 100)
   \<and> called (snd (detected_service other_ptr listening)) = [(7, other_ptr)]
   \<and> parse_packet question_and_answer listening = (None, listening)
   \<and> called listening = []"
proof -
  have "answer_if_known PTR ''_apple-midi._udp.local'' listening = (Inr False, listening)"
    by (simp add: answer_if_known_def find_key_def listening_eq)
  then have "read_questions 1 question_and_answer 12 listening = (Inr (False, 40), listening)"
    by (simp add: read_question_def fields_of_example)
  then have "parse_packet question_and_answer listening = (None, listening)"
    by (simp add: parse_packet_def header_of_example)
  moreover have "called (snd (detected_service other_ptr listening)) = [(7, other_ptr)]"
    by (simp add: detect_other_listening)
  moreover have "called listening = []"
    by (simp add: listening_eq)
  ultimately show ?thesis
    using header_of_example questions_of_example answers_of_example by blast
qed


subsection \<open>Pending timers in reachable engines\<close>

lemma at_key_below:
  "\<forall>x \<in> fst ` set m. k < x \<Longrightarrow> at_key k m = []"
proof -
  assume "\<forall>x \<in> fst ` set m. k < x"
  then have "k \<notin> fst ` set m" by auto
  then have "map_of m k = None" by (simp add: map_of_eq_None_iff)
  then show ?thesis by (simp add: at_key_def)
qed

lemma mset_set_key:
  "sorted_wrt (<) (map fst m)
   \<Longrightarrow> mset (concat (map snd (set_key k v m))) + mset (at_key k m)
       = mset (concat (map snd m)) + mset v"
proof (induction m)
  case Nil
  then show ?case by (simp add: at_key_def)
next
  case (Cons a m)
  obtain k' v' where a: "a = (k', v')" by (cases a)
  show ?case
  proof (cases "k = k'")
    case True
    with a show ?thesis by (simp add: at_key_def)
  next
    case False
    show ?thesis
    proof (cases "k < k'")
      case True
      with Cons.prems a have "\<forall>x \<in> fst ` set (a # m). k < x"
        by (auto intro: less_trans)
      then have "at_key k (a # m) = []"
        by (rule at_key_below)
      with True False a show ?thesis by simp
    next
      case g: False
      from Cons have "mset (concat (map snd (set_key k v m))) + mset (at_key k m)
          = mset (concat (map snd m)) + mset v"
        by simp
      moreover have "at_key k (a # m) = at_key k m"
        using a False by (simp add: at_key_def)
      ultimately show ?thesis
        using a False g by simp
    qed
  qed
qed

lemma handles_append [simp]: "handles (xs @ ys) = handles xs @ handles ys"
  by (simp add: handles_def map_filter_def)

lemma handles_Cons:
  "handles (x # xs) = (case cache_timeout_id x of None \<Rightarrow> [] | Some i \<Rightarrow> [i]) @ handles xs"
  by (simp add: handles_def map_filter_def split: option.splits)

lemma handles_Nil [simp]: "handles [] = []"
  by (simp add: handles_def map_filter_def)

lemma mset_handles_cong: "mset xs = mset ys \<Longrightarrow> mset (handles xs) = mset (handles ys)"
proof -
  assume "mset xs = mset ys"
  then have "image_mset (the \<circ> cache_timeout_id) (filter_mset (\<lambda>x. cache_timeout_id x \<noteq> None) (mset xs))
      = image_mset (the \<circ> cache_timeout_id) (filter_mset (\<lambda>x. cache_timeout_id x \<noteq> None) (mset ys))"
    by simp
  then show ?thesis
    by (simp add: handles_def map_filter_def)
qed

lemma mset_handles_set_key:
  assumes "sorted_wrt (<) (map fst m)"
  shows "mset (handles (concat (map snd (set_key k v m)))) + mset (handles (at_key k m))
         = mset (handles (concat (map snd m))) + mset (handles v)"
proof -
  from mset_set_key [OF assms, of k v]
  have "mset (concat (map snd (set_key k v m)) @ at_key k m) = mset (concat (map snd m) @ v)"
    by simp
  from mset_handles_cong [OF this] show ?thesis
    by simp
qed

lemma set_handles: "set (handles es) = {i. \<exists>x \<in> set es. cache_timeout_id x = Some i}"
  by (auto simp: handles_def map_filter_def image_iff) force

lemma one_scheduled:
  "distinct (map fst ts) \<Longrightarrow> i \<in> fst ` set ts \<Longrightarrow> length (filter (\<lambda>t. Some i = Some (fst t)) ts) = 1"
proof (induction ts)
  case Nil
  then show ?case by simp
next
  case (Cons t ts)
  show ?case
  proof (cases "fst t = i")
    case True
    with Cons.prems have "filter (\<lambda>t. i = fst t) ts = []"
      by (auto simp: filter_empty_conv image_iff)
    with True show ?thesis by simp
  next
    case False
    with Cons show ?thesis by auto
  qed
qed

lemma length_rdata_ip: "length (rdata ip1 s) = length (rdata ip2 s)"
  by (simp add: rdata_def write_uint32_def split: payload.splits)

lemma length_response_packet_ip:
  "length (response_packet ip1 s) = length (response_packet ip2 s)"
  using length_rdata_ip [of ip1 s ip2]
  by (simp add: response_packet_def write_uint16_def)

lemma timers_ok_scheduled:
  assumes "timers_ok m" and "x \<in> set (all_entries m)"
  shows "scheduled m x = (if cache_timeout_id x = None then 0 else 1)"
proof (cases "cache_timeout_id x")
  case None
  then show ?thesis by (simp add: scheduled_def)
next
  case (Some i)
  with assms(2) have "i \<in> set (handles (all_entries m))"
    by (auto simp: set_handles)
  also have "set (handles (all_entries m)) = set (map fst (timers m))"
  proof (rule mset_eq_setD)
    show "mset (handles (all_entries m)) = mset (map fst (timers m))"
      using assms(1) unfolding timers_ok_def by blast
  qed
  finally have "i \<in> fst ` set (timers m)" by simp
  moreover have "distinct (map fst (timers m))"
    using assms(1) by (simp add: timers_ok_def)
  ultimately show ?thesis
    using Some one_scheduled [of "timers m" i] by (simp add: scheduled_def)
qed


lemma timers_okI:
  assumes "sorted_wrt (<) (map fst (announcements m))"
    and "mset (handles (all_entries m)) = mset (map fst (timers m))"
    and "distinct (map fst (timers m))"
    and "\<And>t. t \<in> set (timers m) \<Longrightarrow> fst t < next_timer_id m"
    and "\<And>x. x \<in> set (all_entries m) \<Longrightarrow> cache_timeout_id x \<noteq> None
          \<Longrightarrow> 0 < ttl (svc x) \<and> length (response_packet 0 (svc x)) \<le> 1500"
  shows "timers_ok m"
  using assms unfolding timers_ok_def list_all_iff by blast

lemma timers_okD:
  assumes "timers_ok m"
  shows "sorted_wrt (<) (map fst (announcements m))"
    and "mset (handles (all_entries m)) = mset (map fst (timers m))"
    and "distinct (map fst (timers m))"
    and "\<And>t. t \<in> set (timers m) \<Longrightarrow> fst t < next_timer_id m"
    and "\<And>x. x \<in> set (all_entries m) \<Longrightarrow> cache_timeout_id x \<noteq> None
          \<Longrightarrow> 0 < ttl (svc x) \<and> length (response_packet 0 (svc x)) \<le> 1500"
  using assms unfolding timers_ok_def list_all_iff by blast+

lemma timers_ok_untouched: "untouched m m' \<Longrightarrow> timers_ok m \<Longrightarrow> timers_ok m'"
  by (simp add: timers_ok_def untouched_def all_entries_def)

lemma timers_ok_announce:
  assumes ok: "timers_ok m" and a: "announce srv b m = (x, m')"
  shows "timers_ok m'"
proof (cases x)
  case (Some e)
  with a ok show ?thesis by (auto dest: announce_thrown)
next
  case None
  let ?n = "next_timer_id m"
  let ?h = "if b \<and> ttl srv > 0 then Some ?n else None"
  let ?e = "\<lparr>svc = srv, cache_timeout_id = ?h\<rparr>"
  let ?k = "(type srv, label srv)"
  let ?old = "at_key ?k (announcements m)"
  note r = announce_returned [OF a [unfolded None]]
  note d = timers_okD [OF ok]
  have ents: "mset (all_entries m') = mset (all_entries m) + {#?e#}"
    using mset_set_key [OF d(1), of ?k "?old @ [?e]"] by (simp add: all_entries_def r(1))
  have hs: "mset (handles (all_entries m')) = mset (handles (all_entries m)) + mset (handles [?e])"
    using mset_handles_cong [of "all_entries m'" "all_entries m @ [?e]"] ents by simp
  show ?thesis
  proof (rule timers_okI)
    show "sorted_wrt (<) (map fst (announcements m'))"
      unfolding r(1) by (rule sorted_set_key) (rule d(1))
    show "mset (handles (all_entries m')) = mset (map fst (timers m'))"
      unfolding hs r(2) by (simp add: d(2) handles_Cons)
    have "next_timer_id m \<notin> fst ` set (timers m)"
      using d(4) by fastforce
    then show "distinct (map fst (timers m'))"
      unfolding r(2) using d(3) by simp
    show "fst t < next_timer_id m'" if "t \<in> set (timers m')" for t
      using that d(4) [of t] unfolding r(2,3) by (auto split: if_splits simp: less_Suc_eq)
    show "0 < ttl (svc x) \<and> length (response_packet 0 (svc x)) \<le> 1500"
      if "x \<in> set (all_entries m')" and "cache_timeout_id x \<noteq> None" for x
    proof -
      from that(1) have "x \<in># mset (all_entries m')" by simp
      then have "x \<in> set (all_entries m) \<or> x = ?e"
        unfolding ents by auto
      then show ?thesis
      proof
        assume "x \<in> set (all_entries m)"
        with that(2) show ?thesis using d(5) by blast
      next
        assume x: "x = ?e"
        with that(2) have b: "b" and t: "0 < ttl srv"
          by (auto split: if_splits)
        from r(4) [OF b] have "length (response_packet 0 srv) \<le> 1500"
          using length_response_packet_ip [of 0 srv "ip4 m"] by simp
        with t x show ?thesis by simp
      qed
    qed
  qed
qed


lemma mset_partition: "mset xs = mset (filter (\<lambda>x. \<not> P x) xs) + mset (filter P xs)"
  by (induction xs) auto

lemma cancel_timers_ids:
  "map fst (cancel_timers gone ts) = filter (\<lambda>i. i \<notin> set (handles gone)) (map fst ts)"
  by (simp add: cancel_timers_def filter_map comp_def set_handles list_ex_iff)

lemma timers_ok_unannounce:
  assumes ok: "timers_ok m" and a: "unannounce srv m = (x, m')"
  shows "timers_ok m'"
proof (cases x)
  case (Some e)
  with a ok show ?thesis by (auto dest: unannounce_thrown)
next
  case None
  let ?k = "(type srv, label srv)"
  let ?old = "at_key ?k (announcements m)"
  let ?P = "\<lambda>x. equal (svc x) (srv\<lparr>ttl := 0\<rparr>)"
  let ?kept = "filter (\<lambda>x. \<not> ?P x) ?old"
  let ?gone = "filter ?P ?old"
  note r = unannounce_returned [OF a [unfolded None]]
  note d = timers_okD [OF ok]
  have "mset (all_entries m') + mset ?old = mset (all_entries m) + mset ?kept"
    using mset_set_key [OF d(1), of ?k ?kept] by (simp only: all_entries_def r(1))
  then have "mset (all_entries m') + (mset ?kept + mset ?gone) = mset (all_entries m) + mset ?kept"
    by (simp only: mset_partition [of ?old ?P, symmetric])
  then have "(mset (all_entries m') + mset ?gone) + mset ?kept = mset (all_entries m) + mset ?kept"
    by (simp only: ac_simps)
  then have ents: "mset (all_entries m) = mset (all_entries m') + mset ?gone"
    by (simp only: add_right_cancel)
  have hs: "mset (handles (all_entries m))
      = mset (handles (all_entries m')) + mset (handles ?gone)"
    using mset_handles_cong [of "all_entries m" "all_entries m' @ ?gone"] ents by simp
  have ids: "mset (map fst (timers m)) = mset (handles (all_entries m')) + mset (handles ?gone)"
    using hs d(2) by simp
  have disj: "i \<notin> set (handles ?gone)" if "i \<in> set (handles (all_entries m'))" for i
  proof
    assume "i \<in> set (handles ?gone)"
    then have c1: "Suc 0 \<le> count (mset (handles ?gone)) i"
      by (simp add: Suc_le_eq)
    from that have c2: "Suc 0 \<le> count (mset (handles (all_entries m'))) i"
      by (simp add: Suc_le_eq)
    have "count (mset (map fst (timers m))) i
        = count (mset (handles (all_entries m'))) i + count (mset (handles ?gone)) i"
      unfolding ids by simp
    moreover have "count (mset (map fst (timers m))) i \<le> 1"
      using d(3) by (simp add: distinct_count_atmost_1)
    ultimately show False
      using c1 c2 by linarith
  qed
  show ?thesis
  proof (rule timers_okI)
    show "sorted_wrt (<) (map fst (announcements m'))"
      unfolding r(1) by (rule sorted_set_key) (rule d(1))
    have "mset (map fst (timers m'))
        = filter_mset (\<lambda>i. i \<notin> set (handles ?gone)) (mset (map fst (timers m)))"
      unfolding r(2) cancel_timers_ids by simp
    also have "\<dots> = filter_mset (\<lambda>i. i \<notin> set (handles ?gone)) (mset (handles (all_entries m')))
        + filter_mset (\<lambda>i. i \<notin> set (handles ?gone)) (mset (handles ?gone))"
      unfolding ids by simp
    also have "filter_mset (\<lambda>i. i \<notin> set (handles ?gone)) (mset (handles (all_entries m')))
        = mset (handles (all_entries m'))"
      using disj by (simp add: filter_mset_eq_conv)
    also have "filter_mset (\<lambda>i. i \<notin> set (handles ?gone)) (mset (handles ?gone)) = {#}"
      by simp
    finally show "mset (handles (all_entries m')) = mset (map fst (timers m'))"
      by simp
    show "distinct (map fst (timers m'))"
      unfolding r(2) cancel_timers_ids using d(3) by simp
    show "fst t < next_timer_id m'" if "t \<in> set (timers m')" for t
      using that d(4) [of t] unfolding r(2,3) by (simp add: cancel_timers_def)
    show "0 < ttl (svc x) \<and> length (response_packet 0 (svc x)) \<le> 1500"
      if "x \<in> set (all_entries m')" and "cache_timeout_id x \<noteq> None" for x
    proof -
      from that(1) have "x \<in># mset (all_entries m') + mset ?gone" by simp
      then have "x \<in> set (all_entries m)"
        unfolding ents [symmetric] by simp
      with that(2) show ?thesis using d(5) by blast
    qed
  qed
qed


lemma all_entries_rearm:
  "announcements m' = map (\<lambda>d. (fst d, map f (snd d))) (announcements m)
   \<Longrightarrow> all_entries m' = map f (all_entries m)"
  by (simp add: all_entries_def map_concat comp_def)

lemma handles_rearm:
  "handles (map (rearm i n) es) = map (\<lambda>h. if h = i then n else h) (handles es)"
  by (induction es) (auto simp: handles_Cons rearm_def split: option.splits)

lemma mset_swap_id:
  "distinct ids \<Longrightarrow> i \<in> set ids
   \<Longrightarrow> mset (map (\<lambda>h. if h = i then n else h) ids) = mset (filter (\<lambda>h. h \<noteq> i) ids) + {#n#}"
proof (induction ids)
  case Nil
  then show ?case by simp
next
  case (Cons a ids)
  show ?case
  proof (cases "a = i")
    case True
    with Cons.prems have "i \<notin> set ids" by simp
    then have "map (\<lambda>h. if h = i then n else h) ids = ids"
      by (intro map_idI) auto
    moreover from \<open>i \<notin> set ids\<close> have "filter (\<lambda>h. h \<noteq> i) ids = ids"
      by (auto simp: filter_id_conv)
    ultimately show ?thesis
      using True by simp
  next
    case False
    with Cons show ?thesis by simp
  qed
qed

lemma timer_fired_pending:
  assumes ok: "timers_ok m" and p: "i \<in> fst ` set (timers m)"
  shows "\<exists>srv. srv \<in> set (all_entries m) \<and> cache_timeout_id srv = Some i
           \<and> timer_fired i m
              = (None, (broadcast (response_packet (ip4 m) (svc srv)) m)
                  \<lparr>timers := filter (\<lambda>t. fst t \<noteq> i) (timers m) @ [(next_timer_id m, ttl (svc srv))],
                   next_timer_id := Suc (next_timer_id m),
                   announcements := map (\<lambda>d. (fst d, map (rearm i (next_timer_id m)) (snd d)))
                                      (announcements m)\<rparr>)"
proof -
  note d = timers_okD [OF ok]
  from p have "i \<in> set (map fst (timers m))" by simp
  then have "i \<in> set (handles (all_entries m))"
    using mset_eq_setD [OF d(2)] by simp
  then obtain y where "y \<in> set (all_entries m)" and "cache_timeout_id y = Some i"
    by (auto simp: set_handles)
  then obtain srv where f: "find (\<lambda>x. cache_timeout_id x = Some i) (all_entries m) = Some srv"
    by (cases "find (\<lambda>x. cache_timeout_id x = Some i) (all_entries m)")
      (auto simp: find_None_iff)
  then have srv: "srv \<in> set (all_entries m)" "cache_timeout_id srv = Some i"
    by (auto simp: find_Some_iff)
  with d(5) [of srv] have "length (response_packet 0 (svc srv)) \<le> 1500"
    by simp
  then have l: "length (response_packet (ip4 m) (svc srv)) \<le> 1500"
    using length_response_packet_ip [of 0 "svc srv" "ip4 m"] by simp
  from p have pe: "list_ex (\<lambda>t. fst t = i) (timers m)"
    by (auto simp: list_ex_iff)
  have "timer_fired i m
      = (None, (broadcast (response_packet (ip4 m) (svc srv)) m)
          \<lparr>timers := filter (\<lambda>t. fst t \<noteq> i) (timers m) @ [(next_timer_id m, ttl (svc srv))],
           next_timer_id := Suc (next_timer_id m),
           announcements := map (\<lambda>d. (fst d, map (rearm i (next_timer_id m)) (snd d)))
                              (announcements m)\<rparr>)"
    using l f pe
    by (simp add: timer_fired_def Let_def send_response_def broadcast_def reannounce_later_def
        add_timer_event_def all_entries_def)
  with srv show ?thesis by blast
qed

lemma timers_ok_timer_fired:
  assumes ok: "timers_ok m" and a: "timer_fired i m = (x, m')"
  shows "timers_ok m'"
proof (cases "i \<in> fst ` set (timers m)")
  case False
  then have "\<not> list_ex (\<lambda>t. fst t = i) (timers m)"
    by (auto simp: list_ex_iff)
  with a have "m' = m" by (simp add: timer_fired_def)
  with ok show ?thesis by simp
next
  case True
  let ?n = "next_timer_id m"
  let ?f = "\<lambda>h. if h = i then ?n else h"
  note d = timers_okD [OF ok]
  from timer_fired_pending [OF ok True] obtain srv where
    "srv \<in> set (all_entries m)" and "cache_timeout_id srv = Some i" and
    "timer_fired i m
       = (None, (broadcast (response_packet (ip4 m) (svc srv)) m)
           \<lparr>timers := filter (\<lambda>t. fst t \<noteq> i) (timers m) @ [(?n, ttl (svc srv))],
            next_timer_id := Suc ?n,
            announcements := map (\<lambda>d. (fst d, map (rearm i ?n) (snd d))) (announcements m)\<rparr>)"
    by (elim exE conjE)
  with a have m': "m' = (broadcast (response_packet (ip4 m) (svc srv)) m)
           \<lparr>timers := filter (\<lambda>t. fst t \<noteq> i) (timers m) @ [(?n, ttl (svc srv))],
            next_timer_id := Suc ?n,
            announcements := map (\<lambda>d. (fst d, map (rearm i ?n) (snd d))) (announcements m)\<rparr>"
    by simp
  have an: "announcements m' = map (\<lambda>d. (fst d, map (rearm i ?n) (snd d))) (announcements m)"
    and ti: "timers m' = filter (\<lambda>t. fst t \<noteq> i) (timers m) @ [(?n, ttl (svc srv))]"
    and ne: "next_timer_id m' = Suc ?n"
    by (simp_all add: m' broadcast_def)
  have ents: "all_entries m' = map (rearm i ?n) (all_entries m)"
    using an by (rule all_entries_rearm)
  have fresh: "?n \<notin> fst ` set (timers m)"
    using d(4) by fastforce
  show ?thesis
  proof (rule timers_okI)
    show "sorted_wrt (<) (map fst (announcements m'))"
      using d(1) by (simp add: an comp_def)
    have "mset (handles (all_entries m')) = image_mset ?f (mset (handles (all_entries m)))"
      by (simp add: ents handles_rearm)
    also have "\<dots> = mset (map ?f (map fst (timers m)))"
      by (simp only: d(2) mset_map)
    also have "\<dots> = mset (filter (\<lambda>h. h \<noteq> i) (map fst (timers m))) + {#?n#}"
      by (rule mset_swap_id) (use d(3) True in simp_all)
    also have "\<dots> = mset (map fst (timers m'))"
      by (simp add: ti filter_map comp_def)
    finally show "mset (handles (all_entries m')) = mset (map fst (timers m'))" .
    show "distinct (map fst (timers m'))"
      using d(3) fresh by (simp add: ti distinct_map_filter image_iff)
    show "fst t < next_timer_id m'" if "t \<in> set (timers m')" for t
      using that d(4) [of t] by (auto simp: ti ne less_Suc_eq)
    show "0 < ttl (svc x) \<and> length (response_packet 0 (svc x)) \<le> 1500"
      if "x \<in> set (all_entries m')" and "cache_timeout_id x \<noteq> None" for x
    proof -
      from that(1) obtain y where y: "y \<in> set (all_entries m)" and x: "x = rearm i ?n y"
        by (auto simp: ents)
      with that(2) have "cache_timeout_id y \<noteq> None"
        by (auto simp: rearm_def split: if_splits)
      with d(5) [OF y] x show ?thesis by simp
    qed
  qed
qed

lemma timers_ok_new: "timers_ok (mdns_new default_ip addrs static_routes)"
  by (simp add: timers_ok_def mdns_new_def all_entries_def handles_def map_filter_def
      split: prod.splits)

lemma reachable_timers_ok: "reachable m \<Longrightarrow> timers_ok m"
proof (induction rule: reachable.induct)
  case (new default_ip addrs static_routes)
  show ?case by (rule timers_ok_new)
next
  case (on_discovery m service qt f x m')
  then show ?case
    by (auto simp: on_discovery_def timers_ok_def all_entries_def split: if_splits)
next
  case (remove_discovery m service qt)
  then show ?case
    by (simp add: remove_discovery_def timers_ok_def all_entries_def)
next
  case (query m service qt f x m')
  then show ?case
    by (blast intro: timers_ok_untouched query_untouched)
next
  case (query_name m service qt x m')
  then show ?case
    by (blast intro: timers_ok_untouched query_name_untouched)
next
  case (announce m srv b x m')
  then show ?case
    by (blast intro: timers_ok_announce)
next
  case (unannounce m srv x m')
  then show ?case
    by (blast intro: timers_ok_unannounce)
next
  case (timer m timer_id x m')
  then show ?case
    by (blast intro: timers_ok_timer_fired)
next
  case (datagram m sender bytes x m')
  from mdns_ready_untouched [OF datagram(2)] datagram(4) show ?case
    by (simp add: timers_ok_def untouched_def all_entries_def)
next
  case (other_engine m addrs)
  then show ?case
    by (simp add: timers_ok_def all_entries_def)
qed


text \<open>
  C6, as the code has it.  In every reachable engine, a registry entry that holds a timer
  handle has exactly one pending reannouncement timer, and an entry without a handle has
  none.  \<open>announce\<close> stores the record with a handle exactly when \<open>broadcast\<close> is true
  and the ttl is positive; a record announced without broadcast gets no timer, whatever its
  ttl.
\<close>

theorem reannouncement_timers:
  "(reachable m
      \<longrightarrow> (\<forall>x \<in> set (all_entries m).
            scheduled m x = (if cache_timeout_id x = None then 0 else 1)))
   \<and> (announce srv b m2 = (None, m2')
      \<longrightarrow> at_key (type srv, label srv) (announcements m2')
          = at_key (type srv, label srv) (announcements m2)
            @ [\<lparr>svc = srv,
                 cache_timeout_id = (if b \<and> 0 < ttl srv then Some (next_timer_id m2) else None)\<rparr>])"
proof (intro conjI impI ballI)
  fix x
  assume "reachable m" and "x \<in> set (all_entries m)"
  then show "scheduled m x = (if cache_timeout_id x = None then 0 else 1)"
    by (blast intro: timers_ok_scheduled reachable_timers_ok)
next
  assume "announce srv b m2 = (None, m2')"
  from announce_returned(1) [OF this]
  show "at_key (type srv, label srv) (announcements m2')
          = at_key (type srv, label srv) (announcements m2)
            @ [\<lparr>svc = srv,
                 cache_timeout_id = (if b \<and> 0 < ttl srv then Some (next_timer_id m2) else None)\<rparr>]"
    by (simp add: at_key_set_key)
qed

lemma announced_quietly_eq:
  "announced_quietly
   = \<lparr>ip4 = 167772167, routes = [],
      announcements = [((PTR, ''_apple-midi._udp.local''),
                        [\<lparr>svc = studio_ptr, cache_timeout_id = None\<rparr>])],
      discovery_map = [], query_map = [], cache = [], timers = [], next_timer_id = 0,
      sent = [], called = []\<rparr>"
  by (simp add: announced_quietly_def engine0_def mdns_new_def announce_def at_key_def)
    (simp add: studio_ptr_def type_def PTR_def)

lemma reachable_announced_quietly: "reachable announced_quietly"
  unfolding announced_quietly_def engine0_def
  by (rule reachable.announce [OF reachable.new]) (rule prod.collapse [symmetric])

theorem reannouncement_timers_witness:
  "reachable announced
   \<and> \<lparr>svc = studio_ptr, cache_timeout_id = Some 0\<rparr> \<in> set (all_entries announced)
   \<and> scheduled announced \<lparr>svc = studio_ptr, cache_timeout_id = Some 0\<rparr> = 1
   \<and> reachable announced_quietly
   \<and> \<lparr>svc = studio_ptr, cache_timeout_id = None\<rparr> \<in> set (all_entries announced_quietly)
   \<and> scheduled announced_quietly \<lparr>svc = studio_ptr, cache_timeout_id = None\<rparr> = 0
   \<and> announce studio_ptr True listening = (None, announced)
   \<and> at_key (type studio_ptr, label studio_ptr) (announcements announced)
       = [\<lparr>svc = studio_ptr, cache_timeout_id = Some 0\<rparr>]"
proof -
  have e1: "\<lparr>svc = studio_ptr, cache_timeout_id = Some 0\<rparr> \<in> set (all_entries announced)"
    by (simp add: announced_eq all_entries_def)
  have e2: "\<lparr>svc = studio_ptr, cache_timeout_id = None\<rparr> \<in> set (all_entries announced_quietly)"
    by (simp add: announced_quietly_eq all_entries_def)
  have "fst (announce studio_ptr True listening) = None"
    by (simp add: listening_def engine0_def mdns_new_def on_discovery_def
        announce_def send_response_def Let_def response_packet_def rdata_def studio_ptr_def
        length_write_label response_header_def write_uint16_def write_uint32_def
        reannounce_later_def add_timer_event_def)
  then have a: "announce studio_ptr True listening = (None, announced)"
    by (simp add: announced_def prod_eq_iff)
  note t1 = reannouncement_timers [of announced studio_ptr True listening announced]
  note t2 = reannouncement_timers [of announced_quietly studio_ptr True listening announced]
  from t1 reachable_announced e1
  have s1: "scheduled announced \<lparr>svc = studio_ptr, cache_timeout_id = Some 0\<rparr> = 1"
    by fastforce
  from t2 reachable_announced_quietly e2
  have s2: "scheduled announced_quietly \<lparr>svc = studio_ptr, cache_timeout_id = None\<rparr> = 0"
    by fastforce
  from t1 a have "at_key (type studio_ptr, label studio_ptr) (announcements announced)
      = at_key (type studio_ptr, label studio_ptr) (announcements listening)
        @ [\<lparr>svc = studio_ptr,
             cache_timeout_id = (if True \<and> 0 < ttl studio_ptr then Some (next_timer_id listening)
                                 else None)\<rparr>]"
    by blast
  then have k: "at_key (type studio_ptr, label studio_ptr) (announcements announced)
      = [\<lparr>svc = studio_ptr, cache_timeout_id = Some 0\<rparr>]"
    by (simp add: listening_eq at_key_def studio_ptr_def)
  show ?thesis
    using reachable_announced reachable_announced_quietly e1 e2 s1 s2 a k by blast
qed

text \<open>
  C6, as the claim has it: a reachable engine whose registry holds a record with a positive
  ttl and no pending timer, after \<open>announce\<close> without broadcast.
\<close>

theorem announced_without_broadcast_counterexample:
  "reachable announced_quietly
   \<and> all_entries announced_quietly = [\<lparr>svc = studio_ptr, cache_timeout_id = None\<rparr>]
   \<and> 0 < ttl (svc \<lparr>svc = studio_ptr, cache_timeout_id = None\<rparr>)
   \<and> scheduled announced_quietly \<lparr>svc = studio_ptr, cache_timeout_id = None\<rparr> = 0"
  using reachable_announced_quietly
  by (simp add: announced_quietly_eq all_entries_def scheduled_def) (simp add: studio_ptr_def)

end
